theory Spec2Isabelle
  imports Main "HOL-Library.Word" "HOL-Library.Signed_Division" "HOL-Library.AList"
begin

unbundle bit_operations_syntax

section \<open>Common types\<close>

type_synonym byte = "8 word"

text \<open>
  \<^verbatim>\<open>p2p.IOVec\<close> is a vector of byte buffers (\<^verbatim>\<open>[][]byte\<close>): the sources append
  \<^verbatim>\<open>[]byte\<close> values to it and build it from \<^verbatim>\<open>[][]byte\<close>.
\<close>

type_synonym IOVec = "byte list list"

text \<open>
  Modelled from the spec: \<^verbatim>\<open>p2p.VecBytes\<close> is not in the sources. It flattens a vector
  to the bytes that travel as one message; the underlying swarm delivers the
  concatenation of the buffers handed to its \<^verbatim>\<open>Tell\<close>.
\<close>

definition VecBytes :: "IOVec \<Rightarrow> byte list" where
  "VecBytes v = concat v"

text \<open>
  Go's \<^verbatim>\<open>int\<close> where its width matters: 64 bits in two's complement, as on the
  64-bit platforms. \<open>+\<close> and \<open>-\<close> wrap around; \<open>sint\<close> reads the value.
\<close>

type_synonym go_int = "64 word"

text \<open>Run-time panics of Go, and the explicit \<^verbatim>\<open>panic("...")\<close> calls of the sources.\<close>

datatype go_panic = DivideByZero | SliceOutOfRange | IndexOutOfRange | Panic string

text \<open>
  The swarm below an overlay, as far as \<^verbatim>\<open>Close\<close> is concerned: how many times its
  \<^verbatim>\<open>Close\<close> was invoked, and the error that call returns (\<open>None\<close> is \<^verbatim>\<open>nil\<close>).
\<close>

datatype p2p_error = ErrSwarmClosed | OtherError string

record lower_swarm =
  closeCalls :: nat
  closeResult :: "p2p_error option"

definition lower_Close :: "lower_swarm \<Rightarrow> p2p_error option \<times> lower_swarm" where
  "lower_Close x = (closeResult x, x\<lparr>closeCalls := closeCalls x + 1\<rparr>)"

section \<open>Noise swarm: dialling (package noiseswarm)\<close>

type_synonym PeerID = "byte list"

text \<open>
  A session as far as \<^verbatim>\<open>withAnyReadySession\<close> looks at it: the role it is cached under
  and the peer identity its handshake established.
\<close>

record session =
  initiator :: bool
  remotePeerID :: PeerID

datatype noise_error =
  WrongPeer PeerID PeerID
| DialFailed string
| SendFailed string

definition MaxDialAttempts :: nat where
  "MaxDialAttempts = 10"

definition noise_Overhead :: go_int where
  "noise_Overhead = 4 + 16"

text \<open>
  What one call of \<^verbatim>\<open>withAnyReadySession\<close> did: the error it returned (\<open>None\<close> is
  \<^verbatim>\<open>nil\<close>), the sessions the callback \<^verbatim>\<open>fn\<close> was invoked on, the sessions handed to
  \<^verbatim>\<open>deleteSession\<close>, and how many times \<^verbatim>\<open>dialSession\<close> was called.
\<close>

record dial_outcome =
  ret :: "noise_error option"
  called :: "session list"
  deleted :: "session list"
  dials :: nat

text \<open>
  The body shared by the cache hit and a successful dial:
  \<^verbatim>\<open>
  actualPeerID := sess.getRemotePeerID()
  if actualPeerID != raddr.ID {
      s.deleteSession(raddr.Addr, sess)
      return errors.Errorf("wrong peer HAVE: %v WANT: %v", actualPeerID, raddr.ID)
  }
  return fn(sess)
  \<close>
\<close>

definition useSession ::
  "PeerID \<Rightarrow> (session \<Rightarrow> noise_error option) \<Rightarrow> nat \<Rightarrow> session \<Rightarrow> dial_outcome" where
  "useSession want fn n sess =
     (if remotePeerID sess \<noteq> want
      then \<lparr>ret = Some (WrongPeer (remotePeerID sess) want), called = [],
            deleted = [sess], dials = n\<rparr>
      else \<lparr>ret = fn sess, called = [sess], deleted = [], dials = n\<rparr>)"

text \<open>
  The dial loop. \<open>dial i\<close> is what the \<open>i\<close>-th call of \<^verbatim>\<open>dialSession\<close> returns (it
  depends on the network and on time, so it is a parameter). \<open>err\<close> is the variable
  declared before the loop by \<^verbatim>\<open>var err error\<close>. Inside the loop the statement
  \<^verbatim>\<open>sess, err := s.dialSession(ctx, raddr.Addr)\<close> is a short variable declaration in
  the scope of the loop body: it declares a new \<^verbatim>\<open>err\<close>, so the outer one is never
  assigned and the loop passes it on unchanged. The \<^verbatim>\<open>time.Sleep\<close> between attempts
  has no effect on the values.
\<close>

function dialLoop ::
  "nat \<Rightarrow> noise_error option \<Rightarrow> (nat \<Rightarrow> noise_error + session) \<Rightarrow> PeerID \<Rightarrow>
   (session \<Rightarrow> noise_error option) \<Rightarrow> dial_outcome" where
  "dialLoop i err dial want fn =
     (if i < MaxDialAttempts
      then (case dial i of
              Inr sess \<Rightarrow> useSession want fn (Suc i) sess
            | Inl err_inner \<Rightarrow> dialLoop (Suc i) err dial want fn)
      else \<lparr>ret = err, called = [], deleted = [], dials = i\<rparr>)"
  by pat_completeness auto
termination
  by (relation "measure (\<lambda>(i, err, dial, want, fn). MaxDialAttempts - i)") auto

text \<open>
  \<^verbatim>\<open>withAnyReadySession\<close>: \<open>ready\<close> is the result of \<^verbatim>\<open>getAnyReadySession(raddr)\<close>
  (\<open>None\<close> is \<^verbatim>\<open>nil\<close>), \<open>want\<close> is \<^verbatim>\<open>raddr.ID\<close>.
\<close>

definition withAnyReadySession ::
  "session option \<Rightarrow> (nat \<Rightarrow> noise_error + session) \<Rightarrow> PeerID \<Rightarrow>
   (session \<Rightarrow> noise_error option) \<Rightarrow> dial_outcome" where
  "withAnyReadySession ready dial want fn =
     (case ready of
        Some sess \<Rightarrow> useSession want fn 0 sess
      | None \<Rightarrow> dialLoop 0 None dial want fn)"

text \<open>
  \<^verbatim>\<open>Swarm.Tell\<close>: the callback hands the payload to the session, which encrypts it and
  sends it through the underlying swarm. \<open>tell sess payload\<close> stands for
  \<^verbatim>\<open>sess.tell(ctx, p2p.VecBytes(data))\<close>.
\<close>

definition noise_Tell ::
  "session option \<Rightarrow> (nat \<Rightarrow> noise_error + session) \<Rightarrow> (session \<Rightarrow> byte list \<Rightarrow> noise_error option) \<Rightarrow>
   PeerID \<Rightarrow> IOVec \<Rightarrow> dial_outcome" where
  "noise_Tell ready dial tell dstID data =
     withAnyReadySession ready dial dstID (\<lambda>sess. tell sess (VecBytes data))"

section \<open>Varints of \<^verbatim>\<open>encoding/binary\<close> (Go standard library)\<close>

text \<open>
  \<^verbatim>\<open>
  func PutUvarint(buf []byte, x uint64) int {
      i := 0
      for x >= 0x80 {
          buf[i] = byte(x) | 0x80
          x >>= 7
          i++
      }
      buf[i] = byte(x)
      return i + 1
  }
  \<close>
  \<open>PutUvarint x\<close> is \<^verbatim>\<open>buf[:n]\<close>, the bytes written.
\<close>

function PutUvarint :: "64 word \<Rightarrow> byte list" where
  "PutUvarint x =
     (if x \<ge> 0x80 then (ucast x OR 0x80) # PutUvarint (drop_bit 7 x) else [ucast x])"
  by pat_completeness auto
termination
proof (relation "measure unat")
  show "wf (measure (unat :: 64 word \<Rightarrow> nat))"
    by simp
next
  fix x :: "64 word"
  assume "0x80 \<le> x"
  then have "128 \<le> unat x"
    by (simp add: word_le_nat_alt)
  then have "unat x div 2 ^ 7 < unat x"
    by simp
  then show "(drop_bit 7 x, x) \<in> measure unat"
    by (simp add: drop_bit_eq_div unat_div)
qed

declare PutUvarint.simps [simp del]

text \<open>
  \<^verbatim>\<open>
  func Uvarint(buf []byte) (uint64, int) {
      var x uint64
      var s uint
      for i, b := range buf {
          if b < 0x80 {
              if i > 9 || i == 9 && b > 1 {
                  return 0, -(i + 1) // overflow
              }
              return x | uint64(b)<<s, i + 1
          }
          x |= uint64(b&0x7f) << s
          s += 7
      }
      return 0, 0
  }
  \<close>
  The second result is the number of bytes read; it is 0 when the buffer ends inside a
  varint and negative on overflow.
\<close>

fun Uvarint_loop :: "nat \<Rightarrow> nat \<Rightarrow> 64 word \<Rightarrow> byte list \<Rightarrow> 64 word \<times> int" where
  "Uvarint_loop i s x [] = (0, 0)"
| "Uvarint_loop i s x (b # buf) =
     (if b < 0x80
      then (if i > 9 \<or> (i = 9 \<and> b > 1) then (0, - (int i + 1))
            else (x OR push_bit s (ucast b), int i + 1))
      else Uvarint_loop (i + 1) (s + 7) (x OR push_bit s (ucast (b AND 0x7f))) buf)"

definition Uvarint :: "byte list \<Rightarrow> 64 word \<times> int" where
  "Uvarint buf = Uvarint_loop 0 0 0 buf"

section \<open>Fragmenting swarm (package fragswarm)\<close>

datatype frag_error = InvalidMessage | PartGeTotal | LowerError string

definition MaxVarintLen32 :: int where
  "MaxVarintLen32 = 5"

definition frag_Overhead :: int where
  "frag_Overhead = 3 * MaxVarintLen32"

definition appendUvarint :: "IOVec \<Rightarrow> 64 word \<Rightarrow> IOVec" where
  "appendUvarint b x = b @ [PutUvarint x]"

definition newMessage :: "32 word \<Rightarrow> 8 word \<Rightarrow> 8 word \<Rightarrow> IOVec \<Rightarrow> IOVec" where
  "newMessage msgid part totalParts data =
     (let msg = [];
          msg = appendUvarint msg (ucast msgid);
          msg = appendUvarint msg (ucast part);
          msg = appendUvarint msg (ucast totalParts)
      in msg @ data)"

text \<open>
  The loop of \<^verbatim>\<open>parseMessage\<close> over the three header fields: \<open>k\<close> fields are still to
  be read, \<open>n\<close> bytes of \<open>x\<close> are consumed. \<^verbatim>\<open>x[n:]\<close> is \<open>drop n x\<close>; \<open>n\<close> never exceeds
  the length of \<open>x\<close>, since \<^verbatim>\<open>Uvarint\<close> reads no more than it is given.
\<close>

fun readFields :: "nat \<Rightarrow> byte list \<Rightarrow> nat \<Rightarrow> frag_error + (64 word list \<times> nat)" where
  "readFields 0 x n = Inr ([], n)"
| "readFields (Suc k) x n =
     (case Uvarint (drop n x) of
        (field, n2) \<Rightarrow>
          if n2 < 1 then Inl InvalidMessage
          else (case readFields k x (n + nat n2) of
                  Inl e \<Rightarrow> Inl e
                | Inr (fs, n') \<Rightarrow> Inr (field # fs, n')))"

definition parseMessage ::
  "byte list \<Rightarrow> frag_error + (32 word \<times> 8 word \<times> 8 word \<times> byte list)" where
  "parseMessage x =
     (case readFields 3 x 0 of
        Inl e \<Rightarrow> Inl e
      | Inr (fs, n) \<Rightarrow>
          (let msgid = (ucast (fs ! 0) :: 32 word);
               part = (ucast (fs ! 1) :: 8 word);
               totalParts = (ucast (fs ! 2) :: 8 word)
           in if part \<ge> totalParts then Inl PartGeTotal
              else Inr (msgid, part, totalParts, drop n x)))"

text \<open>
  The swarm's own state. An address is known by its \<^verbatim>\<open>Key()\<close>. The aggregator's
  mutex and its creation time are left out: the sweeper that drops aggregators older
  than five seconds is not part of this model. \<open>cancelled\<close> records that the cancel
  function \<^verbatim>\<open>cf\<close> of the sweeper's context was called.
\<close>

record aggregator =
  parts :: "byte list option list option"

type_synonym aggKey = "string \<times> 32 word"

record frag_swarm =
  Swarm :: lower_swarm
  mtu :: int
  cancelled :: bool
  aggs :: "aggKey \<rightharpoonup> aggregator"
  msgIDs :: "string \<rightharpoonup> 32 word"

record message =
  Src :: string
  Dst :: string
  Payload :: "byte list"

definition frag_newSwarm :: "lower_swarm \<Rightarrow> int \<Rightarrow> frag_swarm" where
  "frag_newSwarm x m =
     \<lparr>Swarm = x, mtu = m, cancelled = False, aggs = Map.empty, msgIDs = Map.empty\<rparr>"

text \<open>
  \<^verbatim>\<open>data[start:end]\<close> on a slice whose capacity is its length: Go panics unless
  \<open>0 \<le> start \<le> end \<le> len(data)\<close>.
\<close>

definition slice :: "'a list \<Rightarrow> int \<Rightarrow> int \<Rightarrow> go_panic + 'a list" where
  "slice xs lo hi =
     (if 0 \<le> lo \<and> lo \<le> hi \<and> hi \<le> int (length xs)
      then Inr (take (nat (hi - lo)) (drop (nat lo) xs))
      else Inl SliceOutOfRange)"

text \<open>
  The bounds the loop of \<^verbatim>\<open>Tell\<close> computes for one part:
  \<^verbatim>\<open>
  start := underMTU * part
  end := len(data)
  if start+underMTU < end {
      end = start + underMTU
  }
  \<close>
\<close>

definition partBounds :: "int \<Rightarrow> int \<Rightarrow> int \<Rightarrow> int \<times> int" where
  "partBounds underMTU len part =
     (let start = underMTU * part;
          stop = len;
          stop = (if start + underMTU < stop then start + underMTU else stop)
      in (start, stop))"

text \<open>
  The loop \<^verbatim>\<open>for part := 0; part < total; part++\<close>: the messages of the parts from
  \<open>part\<close> on, in the order of their part numbers, or the panic of a slice expression.
  \<^verbatim>\<open>uint8(part)\<close> and \<^verbatim>\<open>uint8(total)\<close> keep the low eight bits.
\<close>

function tellParts :: "32 word \<Rightarrow> int \<Rightarrow> int \<Rightarrow> int \<Rightarrow> IOVec \<Rightarrow> go_panic + IOVec list" where
  "tellParts msgid underMTU totalParts part data =
     (if part < totalParts
      then (case partBounds underMTU (int (length data)) part of
              (start, stop) \<Rightarrow>
                (case slice data start stop of
                   Inl p \<Rightarrow> Inl p
                 | Inr chunk \<Rightarrow>
                     (case tellParts msgid underMTU totalParts (part + 1) data of
                        Inl p \<Rightarrow> Inl p
                      | Inr msgs \<Rightarrow>
                          Inr (newMessage msgid (word_of_int part) (word_of_int totalParts) chunk # msgs))))
      else Inr [])"
  by pat_completeness auto
termination
  by (relation "measure (\<lambda>(msgid, underMTU, totalParts, part, data). nat (totalParts - part))") auto

declare tellParts.simps [simp del]

text \<open>
  The number of parts \<^verbatim>\<open>Tell\<close> computes. Go's \<^verbatim>\<open>/\<close> and \<^verbatim>\<open>%\<close> truncate towards zero
  (\<open>sdiv\<close>, \<open>smod\<close>); the caller has checked that \<open>underMTU\<close> is not zero.
\<close>

definition partCount :: "int \<Rightarrow> int \<Rightarrow> int" where
  "partCount len underMTU =
     (let totalParts = len sdiv underMTU;
          totalParts = (if len smod underMTU > 0 then totalParts + 1 else totalParts);
          totalParts = (if totalParts = 0 then 1 else totalParts)
      in totalParts)"

text \<open>
  \<^verbatim>\<open>eg.Wait()\<close> of \<^verbatim>\<open>errgroup.Group\<close>: it waits for every function started by
  \<^verbatim>\<open>eg.Go\<close> and returns the first non-\<^verbatim>\<open>nil\<close> error in time, \<^verbatim>\<open>nil\<close> when there is
  none. The parts are sent concurrently, so which of the failing sends comes first
  is decided by the scheduler: \<open>pick\<close> stands for that decision. \<open>rs\<close> are the results
  of the sends, listed by part number.
\<close>

definition eg_Wait :: "nat \<Rightarrow> frag_error option list \<Rightarrow> frag_error option" where
  "eg_Wait pick rs =
     (case List.map_filter (\<lambda>r. r) rs of
        [] \<Rightarrow> None
      | e # es \<Rightarrow> Some ((e # es) ! (pick mod length (e # es))))"

text \<open>
  \<^verbatim>\<open>swarm.Tell\<close>. \<open>lowerMTU\<close> is \<^verbatim>\<open>s.Swarm.MTU(ctx, addr)\<close>, \<open>lowerTell\<close> the result
  of \<^verbatim>\<open>s.Swarm.Tell\<close> on a message, and \<open>pick\<close> the scheduler's decision that
  \<^verbatim>\<open>eg.Wait()\<close> depends on. The result is a panic, or the returned error, the
  messages handed to the underlying swarm and the swarm's new state. The message
  counter of the address is read and incremented (wrapping at 32 bits) before the
  length is divided. \<open>data\<close> is a \<^verbatim>\<open>p2p.IOVec\<close>, so \<^verbatim>\<open>len(data)\<close> is the number of
  buffers of the vector and \<^verbatim>\<open>data[start:end]\<close> a run of its buffers.

  The integers of \<^verbatim>\<open>Tell\<close> are taken unbounded. Of its operations only the
  subtraction can leave the 64-bit range, for a lower MTU within \<^verbatim>\<open>Overhead\<close> of the
  smallest \<^verbatim>\<open>int\<close>; the divisor, wrapped or not, is then larger in absolute value
  than any length, and the part count is 1 either way.
\<close>

definition frag_Tell ::
  "nat \<Rightarrow> frag_swarm \<Rightarrow> int \<Rightarrow> (IOVec \<Rightarrow> frag_error option) \<Rightarrow> string \<Rightarrow> IOVec \<Rightarrow>
   go_panic + (frag_error option \<times> IOVec list \<times> frag_swarm)" where
  "frag_Tell pick s lowerMTU lowerTell addr data =
     (let underMTU = lowerMTU - frag_Overhead;
          msgid = (case msgIDs s addr of None \<Rightarrow> 0 | Some v \<Rightarrow> v);
          s' = s\<lparr>msgIDs := (msgIDs s)(addr \<mapsto> msgid + 1)\<rparr>
      in if underMTU = 0 then Inl DivideByZero
         else (let totalParts = partCount (int (length data)) underMTU
               in if totalParts = 1
                  then (let msg = newMessage msgid 0 1 data in Inr (lowerTell msg, [msg], s'))
                  else (case tellParts msgid underMTU totalParts 0 data of
                          Inl p \<Rightarrow> Inl p
                        | Inr msgs \<Rightarrow> Inr (eg_Wait pick (map lowerTell msgs), msgs, s'))))"

text \<open>
  \<^verbatim>\<open>aggregator.addPart\<close>: the slot vector is made on the first part; the part is stored
  at its index (a panic when the index is outside the vector); the result says
  whether every slot is filled. \<^verbatim>\<open>append([]byte{}, data...)\<close> is never \<^verbatim>\<open>nil\<close>.
\<close>

definition addPart ::
  "aggregator \<Rightarrow> 8 word \<Rightarrow> 8 word \<Rightarrow> byte list \<Rightarrow> go_panic + (bool \<times> aggregator)" where
  "addPart a part totalParts data =
     (let ps = (case parts a of None \<Rightarrow> replicate (unat totalParts) None | Some ps \<Rightarrow> ps)
      in if unat part < length ps
         then (let ps' = ps[unat part := Some data]
               in Inr (list_all (\<lambda>p. p \<noteq> None) ps', a\<lparr>parts := Some ps'\<rparr>))
         else Inl IndexOutOfRange)"

definition assemble :: "aggregator \<Rightarrow> byte list" where
  "assemble a =
     (case parts a of
        None \<Rightarrow> []
      | Some ps \<Rightarrow> concat (map (\<lambda>p. case p of None \<Rightarrow> [] | Some b \<Rightarrow> b) ps))"

definition newAggregator :: aggregator where
  "newAggregator = \<lparr>parts = None\<rparr>"

text \<open>
  \<^verbatim>\<open>swarm.handleTell\<close>: the messages passed to \<^verbatim>\<open>next\<close> and the new state, or the panic
  of \<^verbatim>\<open>addPart\<close>. A message that does not parse is logged and dropped. The aggregator
  is a pointer held by the map, so what \<^verbatim>\<open>addPart\<close> stores is written back to the map.
\<close>

definition handleTell :: "frag_swarm \<Rightarrow> message \<Rightarrow> go_panic + (message list \<times> frag_swarm)" where
  "handleTell s x =
     (case parseMessage (Payload x) of
        Inl e \<Rightarrow> Inr ([], s)
      | Inr (msgid, part, totalParts, data) \<Rightarrow>
          if totalParts = 1
          then Inr ([\<lparr>Src = Src x, Dst = Dst x, Payload = data\<rparr>], s)
          else (let key = (Src x, msgid);
                    agg = (case aggs s key of None \<Rightarrow> newAggregator | Some a \<Rightarrow> a)
                in case addPart agg part totalParts data of
                     Inl p \<Rightarrow> Inl p
                   | Inr (complete, agg') \<Rightarrow>
                       if complete
                       then Inr ([\<lparr>Src = Src x, Dst = Dst x, Payload = assemble agg'\<rparr>],
                                 s\<lparr>aggs := (aggs s)(key := None)\<rparr>)
                       else Inr ([], s\<lparr>aggs := (aggs s)(key \<mapsto> agg')\<rparr>)))"

text \<open>The handler run on a sequence of incoming messages, collecting what it passes up.\<close>

fun handleTells :: "frag_swarm \<Rightarrow> message list \<Rightarrow> go_panic + (message list \<times> frag_swarm)" where
  "handleTells s [] = Inr ([], s)"
| "handleTells s (x # xs) =
     (case handleTell s x of
        Inl p \<Rightarrow> Inl p
      | Inr (up, s') \<Rightarrow>
          (case handleTells s' xs of
             Inl p \<Rightarrow> Inl p
           | Inr (ups, s'') \<Rightarrow> Inr (up @ ups, s'')))"

subsection \<open>A notion used to state properties of reassembly\<close>

text \<open>
  The slot vector of an aggregator for \<open>n\<close> parts that holds the parts numbered in
  \<open>D\<close>, part \<open>i\<close> with content \<open>c i\<close>.
\<close>

definition slotsOf :: "nat \<Rightarrow> (nat \<Rightarrow> byte list) \<Rightarrow> nat set \<Rightarrow> byte list option list" where
  "slotsOf n c D = map (\<lambda>i. if i \<in> D then Some (c i) else None) [0..<n]"

text \<open>\<^verbatim>\<open>swarm.MTU\<close> of the fragmenting swarm: the configured value.\<close>

definition frag_MTU :: "frag_swarm \<Rightarrow> string \<Rightarrow> int" where
  "frag_MTU s target = mtu s"

text \<open>
  \<^verbatim>\<open>swarm.Close\<close> of the fragmenting swarm: \<^verbatim>\<open>s.cf(); return s.Swarm.Close()\<close>.
\<close>

definition frag_Close :: "frag_swarm \<Rightarrow> p2p_error option \<times> frag_swarm" where
  "frag_Close s =
     (let s = s\<lparr>cancelled := True\<rparr>;
          (err, x) = lower_Close (Swarm s)
      in (err, s\<lparr>Swarm := x\<rparr>))"

section \<open>Noise swarm: MTU and Close\<close>

text \<open>An address of the Noise swarm: a peer identity and the address below.\<close>

record 'a noise_Addr =
  ID :: PeerID
  Addr :: 'a

text \<open>
  The Noise swarm, as far as \<^verbatim>\<open>MTU\<close> and \<^verbatim>\<open>Close\<close> use it: the wrapped swarm and
  whether the cancel function \<^verbatim>\<open>cf\<close> was called.
\<close>

record noise_swarm =
  swarm :: lower_swarm
  noise_cancelled :: bool

text \<open>
  \<^verbatim>\<open>Swarm.MTU\<close>: \<^verbatim>\<open>s.swarm.MTU(ctx, target.Addr) - Overhead\<close>; \<open>lowerMTU\<close> is the
  \<^verbatim>\<open>MTU\<close> method of the wrapped swarm. The subtraction is Go's: it wraps around.
\<close>

definition noise_MTU :: "('a \<Rightarrow> go_int) \<Rightarrow> 'a noise_Addr \<Rightarrow> go_int" where
  "noise_MTU lowerMTU target = lowerMTU (Addr target) - noise_Overhead"

text \<open>\<^verbatim>\<open>Swarm.Close\<close>: \<^verbatim>\<open>s.cf(); return s.swarm.Close()\<close>.\<close>

definition noise_Close :: "noise_swarm \<Rightarrow> p2p_error option \<times> noise_swarm" where
  "noise_Close s =
     (let s = s\<lparr>noise_cancelled := True\<rparr>;
          (err, x) = lower_Close (swarm s)
      in (err, s\<lparr>swarm := x\<rparr>))"

section \<open>Dynamic multiplexer: a channel's MTU and Close (package dynmux)\<close>

text \<open>
  Modelled from the spec: the hubs of package \<^verbatim>\<open>swarmutil\<close> are not in the sources.
  \<^verbatim>\<open>CloseWithError(err)\<close> makes current and future deliveries fail with \<open>err\<close>; a hub
  is modelled by the error it was closed with. Closing a closed hub changes nothing.
\<close>

record hub =
  closedWith :: "p2p_error option"

definition CloseWithError :: "hub \<Rightarrow> p2p_error \<Rightarrow> hub" where
  "CloseWithError h err = (case closedWith h of None \<Rightarrow> h\<lparr>closedWith := Some err\<rparr> | Some e \<Rightarrow> h)"

text \<open>
  The muxer holds the underlying swarm (its field \<^verbatim>\<open>s\<close>); a channel (\<^verbatim>\<open>baseSwarm\<close>)
  holds the muxer (its field \<^verbatim>\<open>m\<close>), its name and its two hubs.
\<close>

record muxer =
  muxer_s :: lower_swarm

record baseSwarm =
  baseSwarm_m :: muxer
  name :: string
  tellHub :: hub
  askHub :: hub

text \<open>
  \<^verbatim>\<open>baseSwarm.MTU\<close>: \<^verbatim>\<open>s.m.s.MTU(ctx, addr) - channelSize\<close>. The constant
  \<^verbatim>\<open>channelSize\<close> is declared in a file that is not in the sources, so it is a
  parameter. The subtraction is Go's: it wraps around.
\<close>

definition dynmux_MTU :: "go_int \<Rightarrow> ('a \<Rightarrow> go_int) \<Rightarrow> 'a \<Rightarrow> go_int" where
  "dynmux_MTU channelSize lowerMTU addr = lowerMTU addr - channelSize"

text \<open>
  \<^verbatim>\<open>
  func (s *baseSwarm) Close() error {
      s.askHub.CloseWithError(p2p.ErrSwarmClosed)
      s.tellHub.CloseWithError(p2p.ErrSwarmClosed)
      return nil
  }
  \<close>
\<close>

definition dynmux_Close :: "baseSwarm \<Rightarrow> p2p_error option \<times> baseSwarm" where
  "dynmux_Close s =
     (let s = s\<lparr>askHub := CloseWithError (askHub s) ErrSwarmClosed\<rparr>;
          s = s\<lparr>tellHub := CloseWithError (tellHub s) ErrSwarmClosed\<rparr>
      in (None, s))"

section \<open>Kademlia cache (package kademlia)\<close>

text \<open>
  An entry; \<open>Value\<close> is an \<^verbatim>\<open>interface{}\<close>, \<open>None\<close> is \<^verbatim>\<open>nil\<close>. A bucket is a
  \<^verbatim>\<open>map[string]Entry\<close> keyed by \<^verbatim>\<open>string(key)\<close>: an association list with distinct
  keys. The order of the list stands for the order in which \<^verbatim>\<open>range\<close> visits the
  map, which Go leaves unspecified. The field \<^verbatim>\<open>max\<close> of the cache is \<open>max_c\<close> here.
\<close>

record 'v Entry =
  Key :: "byte list"
  Value :: "'v option"

type_synonym 'v bucket_map = "(byte list \<times> 'v Entry) list"

record 'v Cache =
  locus :: "byte list"
  minPerBucket :: int
  count :: int
  max_c :: int
  buckets :: "'v bucket_map list"

text \<open>
  Modelled from the spec: \<^verbatim>\<open>XORBytes\<close> and \<^verbatim>\<open>Leading0s\<close> are in a file of the package
  that is not in the sources. The spec buckets a key by "the number of leading zero
  bits of XOR(locus, key)". \<open>XORBytes dst a b\<close> is \<open>dst\<close> after the call: the byte-wise
  XOR of \<open>a\<close> and \<open>b\<close> as far as all three reach, the rest of \<open>dst\<close> as it was.
\<close>

fun XORBytes :: "byte list \<Rightarrow> byte list \<Rightarrow> byte list \<Rightarrow> byte list" where
  "XORBytes (d # dst) (a # xs) (b # ys) = (a XOR b) # XORBytes dst xs ys"
| "XORBytes dst xs ys = dst"

definition LeadingZeros8 :: "byte \<Rightarrow> nat" where
  "LeadingZeros8 b = length (takeWhile (\<lambda>i. \<not> bit b i) (rev [0..<8]))"

fun Leading0s :: "byte list \<Rightarrow> nat" where
  "Leading0s [] = 0"
| "Leading0s (b # x) = (if LeadingZeros8 b < 8 then LeadingZeros8 b else 8 + Leading0s x)"

text \<open>
  \<^verbatim>\<open>bytes.Compare\<close> of the Go standard library: lexicographic, a proper prefix first.
\<close>

fun bytes_Compare :: "byte list \<Rightarrow> byte list \<Rightarrow> int" where
  "bytes_Compare [] [] = 0"
| "bytes_Compare [] (y # ys) = - 1"
| "bytes_Compare (x # xs) [] = 1"
| "bytes_Compare (x # xs) (y # ys) =
     (if x < y then - 1 else if y < x then 1 else bytes_Compare xs ys)"

definition NewCache :: "byte list \<Rightarrow> int \<Rightarrow> int \<Rightarrow> go_panic + 'v Cache" where
  "NewCache loc mx mpb =
     (if mx < 1 then Inl (Panic ''max < 1'')
      else Inr \<lparr>locus = loc, minPerBucket = mpb, count = 0, max_c = mx, buckets = []\<rparr>)"

definition bucketIndex :: "'v Cache \<Rightarrow> byte list \<Rightarrow> nat" where
  "bucketIndex kc key =
     (let dist = replicate (length (locus kc)) 0;
          dist = XORBytes dist (locus kc) key
      in Leading0s dist)"

text \<open>\<^verbatim>\<open>Cache.bucket\<close>: \<open>None\<close> is the \<^verbatim>\<open>nil\<close> map.\<close>

definition bucket :: "'v Cache \<Rightarrow> byte list \<Rightarrow> 'v bucket_map option" where
  "bucket kc key =
     (let i = bucketIndex kc key
      in if i < length (buckets kc) then Some (buckets kc ! i) else None)"

definition Get :: "'v Cache \<Rightarrow> byte list \<Rightarrow> 'v option" where
  "Get kc key =
     (case bucket kc key of
        None \<Rightarrow> None
      | Some b \<Rightarrow> (case map_of b key of None \<Rightarrow> None | Some e \<Rightarrow> Value e))"

text \<open>\<^verbatim>\<open>getOne\<close>: some key of the map. Which one \<^verbatim>\<open>range\<close> yields first is not
  specified; \<open>pick\<close> selects it.\<close>

definition getOne :: "nat \<Rightarrow> 'v bucket_map \<Rightarrow> go_panic + byte list" where
  "getOne pick m =
     (if m = [] then Inl (Panic ''getOne called on empty map'')
      else Inr (fst (m ! (pick mod length m))))"

text \<open>
  The scan of \<^verbatim>\<open>evict\<close>: the index of the first bucket with
  \<^verbatim>\<open>len(b) > kc.minPerBucket && len(b) != 0\<close>, counting from \<open>i\<close>.
\<close>

fun firstEvictable :: "int \<Rightarrow> 'v bucket_map list \<Rightarrow> nat \<Rightarrow> nat option" where
  "firstEvictable mpb [] i = None"
| "firstEvictable mpb (b # bs) i =
     (if int (length b) > mpb \<and> length b \<noteq> 0 then Some i else firstEvictable mpb bs (Suc i))"

text \<open>The zero value of \<^verbatim>\<open>Entry\<close>, which reading a missing key of a map yields.\<close>

definition zeroEntry :: "'v Entry" where
  "zeroEntry = \<lparr>Key = [], Value = None\<rparr>"

definition evict :: "nat \<Rightarrow> 'v Cache \<Rightarrow> go_panic + ('v Entry option \<times> 'v Cache)" where
  "evict pick kc =
     (case firstEvictable (minPerBucket kc) (buckets kc) 0 of
        None \<Rightarrow> Inr (None, kc)
      | Some n \<Rightarrow>
          (let b = buckets kc ! n
           in case getOne pick b of
                Inl p \<Rightarrow> Inl p
              | Inr k \<Rightarrow>
                  (let ent = (case map_of b k of None \<Rightarrow> zeroEntry | Some e \<Rightarrow> e);
                       b = AList.delete k b
                   in Inr (Some ent, kc\<lparr>buckets := (buckets kc)[n := b], count := count kc - 1\<rparr>))))"

text \<open>The loop \<^verbatim>\<open>for len(kc.buckets) <= lz { kc.buckets = append(kc.buckets, map[string]Entry{}) }\<close>.\<close>

function growBuckets :: "'v bucket_map list \<Rightarrow> nat \<Rightarrow> 'v bucket_map list" where
  "growBuckets bs lz = (if length bs \<le> lz then growBuckets (bs @ [[]]) lz else bs)"
  by pat_completeness auto
termination
  by (relation "measure (\<lambda>(bs, lz). Suc lz - length bs)") auto

declare growBuckets.simps [simp del]

text \<open>
  \<^verbatim>\<open>Cache.Put\<close>: the evicted entry (if any) and the cache afterwards. \<open>pick\<close> is the
  choice \<^verbatim>\<open>getOne\<close> makes should the put evict.
\<close>

definition Put ::
  "nat \<Rightarrow> 'v Cache \<Rightarrow> byte list \<Rightarrow> 'v option \<Rightarrow> go_panic + ('v Entry option \<times> 'v Cache)" where
  "Put pick kc key v =
     (let e = \<lparr>Key = key, Value = v\<rparr>;
          lz = bucketIndex kc key;
          kc = kc\<lparr>buckets := growBuckets (buckets kc) lz\<rparr>;
          b = buckets kc ! lz;
          kc = (if map_of b (Key e) = None then kc\<lparr>count := count kc + 1\<rparr> else kc);
          b = AList.update (Key e) e b;
          kc = kc\<lparr>buckets := (buckets kc)[lz := b]\<rparr>;
          needToEvict = (count kc > max_c kc)
      in if needToEvict then evict pick kc else Inr (None, kc))"

text \<open>
  The loop of \<^verbatim>\<open>WouldPut\<close>, \<^verbatim>\<open>i--; for ; i >= 0; i-- { ... }\<close>: \<open>wouldPutScan bs mpb n\<close>
  looks at the buckets \<open>n - 1\<close> down to \<open>0\<close>.
\<close>

fun wouldPutScan :: "'v bucket_map list \<Rightarrow> int \<Rightarrow> nat \<Rightarrow> bool" where
  "wouldPutScan bs mpb 0 = False"
| "wouldPutScan bs mpb (Suc i) =
     (if int (length (bs ! i)) < mpb then True else wouldPutScan bs mpb i)"

definition WouldPut :: "'v Cache \<Rightarrow> byte list \<Rightarrow> bool" where
  "WouldPut kc key =
     (let i = bucketIndex kc key
      in if count kc + 1 \<le> max_c kc \<or> i \<ge> length (buckets kc) then True
         else wouldPutScan (buckets kc) (minPerBucket kc) i)"

definition Contains :: "'v Cache \<Rightarrow> byte list \<Rightarrow> bool" where
  "Contains kc key = (Get kc key \<noteq> None)"

definition WouldAdd :: "'v Cache \<Rightarrow> byte list \<Rightarrow> bool" where
  "WouldAdd kc key = (if Contains kc key then False else WouldPut kc key)"

text \<open>\<^verbatim>\<open>Cache.Delete\<close>: the removed entry (if any) and the cache afterwards.\<close>

definition Delete :: "'v Cache \<Rightarrow> byte list \<Rightarrow> 'v Entry option \<times> 'v Cache" where
  "Delete kc key =
     (case bucket kc key of
        None \<Rightarrow> (None, kc)
      | Some b \<Rightarrow>
          (case map_of b key of
             None \<Rightarrow> (None, kc)
           | Some e \<Rightarrow>
               (Some e, kc\<lparr>buckets := (buckets kc)[bucketIndex kc key := AList.delete key b],
                            count := count kc - 1\<rparr>)))"

definition Count :: "'v Cache \<Rightarrow> int" where
  "Count kc = count kc"

text \<open>
  The loop of \<^verbatim>\<open>Closest\<close>:
  \<^verbatim>\<open>
  for _, e := range b {
      XORBytes(dist, e.Key, key)
      if minDist == nil || bytes.Compare(dist, minDist) < 0 {
          minDist = append([]byte{}, dist...)
          closestEntry = &e
      }
  }
  return closestEntry
  \<close>
  The module declares \<^verbatim>\<open>go 1.15\<close>: the loop has one variable \<^verbatim>\<open>e\<close>, assigned anew in
  every iteration, and \<^verbatim>\<open>&e\<close> is the address of that one variable. So
  \<^verbatim>\<open>closestEntry\<close> is either \<^verbatim>\<open>nil\<close> or points to \<^verbatim>\<open>e\<close>; the state keeps the
  content of \<^verbatim>\<open>e\<close> and whether the pointer is set.
\<close>

record 'v closest_vars =
  minDist :: "byte list option"
  closestEntry_set :: bool
  loopVar_e :: "'v Entry"
  dist_buf :: "byte list"

fun Closest_loop :: "byte list \<Rightarrow> 'v bucket_map \<Rightarrow> 'v closest_vars \<Rightarrow> 'v closest_vars" where
  "Closest_loop key [] st = st"
| "Closest_loop key ((k, ent) # b) st =
     (let st = st\<lparr>loopVar_e := ent\<rparr>;
          st = st\<lparr>dist_buf := XORBytes (dist_buf st) (Key (loopVar_e st)) key\<rparr>;
          st = (if (case minDist st of None \<Rightarrow> True
                    | Some md \<Rightarrow> bytes_Compare (dist_buf st) md < 0)
                then st\<lparr>minDist := Some (dist_buf st), closestEntry_set := True\<rparr>
                else st)
      in Closest_loop key b st)"

text \<open>
  \<^verbatim>\<open>Cache.Closest\<close>: what the returned pointer refers to when the function returns
  (\<open>None\<close> for \<^verbatim>\<open>nil\<close>). Ranging over the \<^verbatim>\<open>nil\<close> map visits nothing.
\<close>

definition Closest :: "'v Cache \<Rightarrow> byte list \<Rightarrow> 'v Entry option" where
  "Closest kc key =
     (let b = (case bucket kc key of None \<Rightarrow> [] | Some b \<Rightarrow> b);
          st = \<lparr>minDist = None, closestEntry_set = False, loopVar_e = zeroEntry,
                dist_buf = replicate (length (locus kc)) 0\<rparr>;
          st = Closest_loop key b st
      in if closestEntry_set st then Some (loopVar_e st) else None)"

text \<open>A sequence of operations on a cache, run from left to right.\<close>

datatype 'v cache_op = OpPut nat "byte list" "'v option" | OpDelete "byte list"

fun runOps :: "'v Cache \<Rightarrow> 'v cache_op list \<Rightarrow> go_panic + 'v Cache" where
  "runOps kc [] = Inr kc"
| "runOps kc (OpPut pick key v # ops) =
     (case Put pick kc key v of Inl p \<Rightarrow> Inl p | Inr (ev, kc') \<Rightarrow> runOps kc' ops)"
| "runOps kc (OpDelete key # ops) = runOps (snd (Delete kc key)) ops"

subsection \<open>Notions used to state properties of the cache\<close>

text \<open>The sum of the sizes of all buckets.\<close>

definition bucketTotal :: "'v Cache \<Rightarrow> int" where
  "bucketTotal kc = sum_list (map (\<lambda>b. int (length b)) (buckets kc))"

text \<open>Every bucket is a map: no key occurs twice, so its length is its size.\<close>

definition distinctKeys :: "'v Cache \<Rightarrow> bool" where
  "distinctKeys kc = list_all (\<lambda>b. distinct (map fst b)) (buckets kc)"

text \<open>
  No bucket is above the floor: each holds at most \<open>min_per_bucket\<close> entries or is
  empty, which is when \<^verbatim>\<open>evict\<close> finds nothing to evict.
\<close>

definition atFloor :: "'v Cache \<Rightarrow> bool" where
  "atFloor kc = list_all (\<lambda>b. int (length b) \<le> minPerBucket kc \<or> b = []) (buckets kc)"

fun isPut :: "'v cache_op \<Rightarrow> bool" where
  "isPut (OpPut pick key v) = True"
| "isPut (OpDelete key) = False"

text \<open>The entry stored under a key, whatever its value.\<close>

definition stored :: "'v Cache \<Rightarrow> byte list \<Rightarrow> 'v Entry option" where
  "stored kc key = (case bucket kc key of None \<Rightarrow> None | Some b \<Rightarrow> map_of b key)"

section \<open>Noise swarm: the dial loop gives up silently\<close>

lemma dialLoop_all_fail:
  "(\<And>j. i \<le> j \<Longrightarrow> j < MaxDialAttempts \<Longrightarrow> \<exists>e. dial j = Inl e) \<Longrightarrow> i \<le> MaxDialAttempts \<Longrightarrow>
   dialLoop i err dial want fn = \<lparr>ret = err, called = [], deleted = [], dials = MaxDialAttempts\<rparr>"
proof (induction i err dial want fn rule: dialLoop.induct)
  case (1 i err dial want fn)
  show ?case
  proof (cases "i < MaxDialAttempts")
    case True
    then obtain e where e: "dial i = Inl e"
      using "1.prems"(1) [of i] by auto
    have "dialLoop (Suc i) err dial want fn =
        \<lparr>ret = err, called = [], deleted = [], dials = MaxDialAttempts\<rparr>"
      using "1.IH" [OF True e] "1.prems"(1) True by auto
    then show ?thesis
      using True e by simp
  next
    case False
    then have "i = MaxDialAttempts"
      using "1.prems"(2) by simp
    then show ?thesis
      by simp
  qed
qed

text \<open>
  C1 fails on the code. With no ready session in the cache and every one of the
  \<open>MaxDialAttempts\<close> calls of \<^verbatim>\<open>dialSession\<close> failing, \<^verbatim>\<open>withAnyReadySession\<close> (and so
  \<^verbatim>\<open>Tell\<close>) returns \<^verbatim>\<open>nil\<close> although the callback was never invoked and nothing was
  handed to the underlying swarm: the errors of the dials are lost in the shadowed
  variable, where a non-nil error is due.
\<close>

theorem noise_Tell_all_dials_fail_returns_nil:
  assumes "\<And>i. i < MaxDialAttempts \<Longrightarrow> \<exists>e. dial i = Inl e"
  shows "noise_Tell None dial tell dstID data =
           \<lparr>ret = None, called = [], deleted = [], dials = MaxDialAttempts\<rparr>"
  unfolding noise_Tell_def withAnyReadySession_def
  using dialLoop_all_fail [of 0 dial None dstID] assms by simp

theorem noise_Tell_all_dials_fail_witness:
  "ret (noise_Tell None (\<lambda>i. Inl (DialFailed ''handshake timed out'')) (\<lambda>sess p. None) [1] [[104, 105]]) = None
   \<and> called (noise_Tell None (\<lambda>i. Inl (DialFailed ''handshake timed out'')) (\<lambda>sess p. None) [1] [[104, 105]]) = []
   \<and> dials (noise_Tell None (\<lambda>i. Inl (DialFailed ''handshake timed out'')) (\<lambda>sess p. None) [1] [[104, 105]]) = 10"
  using noise_Tell_all_dials_fail_returns_nil
    [of "\<lambda>i. Inl (DialFailed ''handshake timed out'')" "\<lambda>sess p. None" "[1]" "[[104, 105]]"]
  by (simp add: MaxDialAttempts_def)

section \<open>Varints: reading back what was written\<close>

lemma x7f: "(0x7f :: 'a::len word) = mask 7"
  by (simp add: mask_eq_exp_minus_1)

lemma bit_0x80: "bit (0x80 :: 8 word) n \<longleftrightarrow> n = 7"
proof -
  have "(0x80 :: 8 word) = 2 ^ 7"
    by simp
  then have "bit (0x80 :: 8 word) n \<longleftrightarrow> bit (2 ^ 7 :: 8 word) n"
    by (simp only:)
  also have "\<dots> \<longleftrightarrow> n = 7"
    by (simp only: bit_exp_iff) (auto simp add: possible_bit_word)
  finally show ?thesis .
qed

lemma cont_bit: "\<not> ((w OR 0x80 :: 8 word) < 0x80)"
proof -
  have "(0x80 :: 8 word) \<le> 0x80 OR w"
    by (rule le_word_or2)
  then show ?thesis
    by (simp add: or.commute not_less)
qed

lemma low7: "(ucast ((ucast (y :: 64 word) OR 0x80 :: 8 word) AND 0x7f) :: 64 word) = y AND 0x7f"
  unfolding x7f
  by (rule bit_word_eqI) (auto simp add: bit_and_iff bit_or_iff bit_ucast_iff bit_mask_iff bit_0x80 simp del: bit_numeral_word_iff)

lemma comb: "((x :: 64 word) OR push_bit s (y AND 0x7f)) OR push_bit (s + 7) (drop_bit 7 y) = x OR push_bit s y"
  unfolding x7f
proof (rule bit_word_eqI)
  fix n
  assume "n < LENGTH(64)"
  have a: "\<not> n - s < 7 \<Longrightarrow> 7 + (n - (s + 7)) = n - s" "\<not> n - s < 7 \<Longrightarrow> s + 7 \<le> n"
    by arith+
  show "bit ((x OR push_bit s (y AND mask 7)) OR push_bit (s + 7) (drop_bit 7 y)) n = bit (x OR push_bit s y) n"
    by (cases "n - s < 7") (auto simp add: bit_simps a)
qed

lemma small_cast: "unat (y :: 64 word) < 128 \<Longrightarrow> (ucast (ucast y :: 8 word) :: 64 word) = y"
proof -
  assume "unat y < 128"
  then have "y < 2 ^ 7"
    by (simp add: word_less_nat_alt)
  then have "y AND mask 7 = y"
    by (rule less_mask_eq)
  then have b: "\<And>n. bit y n \<Longrightarrow> n < 7"
    by (metis bit_and_iff bit_mask_iff)
  show ?thesis
    by (rule bit_word_eqI) (auto simp add: bit_simps dest: b)
qed

lemma small_byte: "unat (y :: 64 word) < k \<Longrightarrow> unat (ucast y :: 8 word) < k"
proof -
  assume a: "unat y < k"
  have "unat (ucast y :: 8 word) = take_bit 8 (unat y)"
    by (simp add: unsigned_ucast_eq)
  also have "\<dots> \<le> unat y"
    by (simp add: take_bit_eq_mod)
  finally show ?thesis
    using a by simp
qed

lemma PutUvarint_eq:
  "unat y < 2 ^ (64 - 7 * i) \<Longrightarrow> i \<le> 9 \<Longrightarrow>
   Uvarint_loop i (7 * i) x (PutUvarint y @ rest) = (x OR push_bit (7 * i) y, int i + int (length (PutUvarint y)))"
proof (induction y arbitrary: i x rule: PutUvarint.induct)
  case (1 y)
  show ?case
  proof (cases "y \<ge> 0x80")
    case True
    have y128: "128 \<le> unat y" using True by (simp add: word_le_nat_alt)
    have i8: "i \<le> 8"
    proof (rule ccontr)
      assume "\<not> i \<le> 8"
      then have "i = 9" using "1.prems"(2) by simp
      then have "unat y < 2" using "1.prems"(1) by simp
      then show False using y128 by simp
    qed
    have small: "unat (drop_bit 7 y) < 2 ^ (64 - 7 * (i + 1))"
    proof -
      have "unat (drop_bit 7 y) = unat y div 2 ^ 7"
        by (simp add: drop_bit_eq_div unat_div)
      moreover have "(2::nat) ^ (64 - 7 * i) = 2 ^ (64 - 7 * (i + 1)) * 2 ^ 7"
      proof -
        have "64 - 7 * i = (64 - 7 * (i + 1)) + 7"
          using i8 by simp
        then show ?thesis
          by (simp only: power_add)
      qed
      ultimately show ?thesis
        using "1.prems"(1) by (simp add: less_mult_imp_div_less)
    qed
    have i9: "i + 1 \<le> 9"
      using i8 by simp
    have s7: "7 * (i + 1) = 7 * i + 7"
      by simp
    have "Uvarint_loop i (7 * i) x (PutUvarint y @ rest) =
          Uvarint_loop (i + 1) (7 * (i + 1)) (x OR push_bit (7 * i) (y AND 0x7f)) (PutUvarint (drop_bit 7 y) @ rest)"
      unfolding s7 using True cont_bit [of "ucast y"] low7 [of y] by (subst PutUvarint.simps) simp
    also have "\<dots> = ((x OR push_bit (7 * i) (y AND 0x7f)) OR push_bit (7 * (i + 1)) (drop_bit 7 y),
                     int (i + 1) + int (length (PutUvarint (drop_bit 7 y))))"
      by (rule "1.IH" [OF True small i9])
    also have "\<dots> = (x OR push_bit (7 * i) y, int i + int (length (PutUvarint y)))"
      unfolding s7 comb using True by (subst (2) PutUvarint.simps) simp
    finally show ?thesis .
  next
    case False
    have y: "unat y < 128" using False by (simp add: word_le_nat_alt)
    have b: "(ucast y :: 8 word) < 0x80"
      using small_byte [OF y] by (simp add: word_less_nat_alt)
    have b1: "\<not> (ucast y :: 8 word) > 1" if "i = 9"
    proof -
      have "unat y < 2" using "1.prems"(1) that by simp
      then have "unat (ucast y :: 8 word) < 2" by (rule small_byte)
      then show ?thesis by (simp add: word_less_nat_alt)
    qed
    show ?thesis
      using False b b1 small_cast [OF y] "1.prems"(2) by (subst PutUvarint.simps, subst PutUvarint.simps) auto
  qed
qed

lemma Uvarint_PutUvarint: "Uvarint (PutUvarint y @ rest) = (y, int (length (PutUvarint y)))"
proof -
  have "unat y < 2 ^ (64 - 7 * 0)"
    using unsigned_less [of y] by simp
  then show ?thesis
    using PutUvarint_eq [of y 0 0 rest] by (simp add: Uvarint_def)
qed

lemma PutUvarint_nonempty: "PutUvarint y \<noteq> []"
  by (subst PutUvarint.simps) simp

section \<open>Fragmenting swarm: the check of part against total\<close>

lemma parseMessage_fields:
  assumes "Uvarint x = (f0, n0)" and "Uvarint (drop (nat n0) x) = (f1, n1)"
    and "Uvarint (drop (nat n0 + nat n1) x) = (f2, n2)"
  shows "parseMessage x =
     (if n0 < 1 \<or> n1 < 1 \<or> n2 < 1 then Inl InvalidMessage
      else if (ucast f1 :: 8 word) \<ge> ucast f2 then Inl PartGeTotal
      else Inr (ucast f0, ucast f1, ucast f2, drop (nat n0 + nat n1 + nat n2) x))"
  using assms by (simp add: parseMessage_def numeral_3_eq_3 Let_def)

lemma handleTell_drops:
  "parseMessage (Payload m) = Inl e \<Longrightarrow> handleTell s m = Inr ([], s)"
  by (simp add: handleTell_def)

text \<open>
  C7 fails on the code. \<^verbatim>\<open>parseMessage\<close> narrows the decoded part and total with
  \<^verbatim>\<open>uint8(...)\<close> before it compares them, so the check \<^verbatim>\<open>part >= total\<close> sees only
  the low eight bits of the wire values. The message \<^verbatim>\<open>00 80 02 01 07\<close> carries
  message id 0, part 256 (the uvarint \<^verbatim>\<open>80 02\<close>), total 1 and the payload byte
  \<^verbatim>\<open>07\<close>: its wire part is greater than its wire total, yet it parses as part 0 of 1
  and \<^verbatim>\<open>handleTell\<close> delivers its payload upward, where an error and no delivery are
  due.
\<close>

theorem parseMessage_accepts_wrapped_part:
  "Uvarint (drop 1 [0x00, 0x80, 0x02, 0x01, 0x07]) = (256, 2)
   \<and> Uvarint (drop 3 [0x00, 0x80, 0x02, 0x01, 0x07]) = (1, 1)
   \<and> (1 :: 64 word) \<le> 256
   \<and> parseMessage [0x00, 0x80, 0x02, 0x01, 0x07] = Inr (0, 0, 1, [0x07])
   \<and> handleTell (frag_newSwarm \<lparr>closeCalls = 0, closeResult = None\<rparr> 1024)
        \<lparr>Src = ''peer'', Dst = ''me'', Payload = [0x00, 0x80, 0x02, 0x01, 0x07]\<rparr>
      = Inr ([\<lparr>Src = ''peer'', Dst = ''me'', Payload = [0x07]\<rparr>],
             frag_newSwarm \<lparr>closeCalls = 0, closeResult = None\<rparr> 1024)"
proof -
  have u1: "Uvarint (drop 1 [0x00, 0x80, 0x02, 0x01, 0x07]) = (256, 2)"
    by code_simp
  have u2: "Uvarint (drop 3 [0x00, 0x80, 0x02, 0x01, 0x07]) = (1, 1)"
    by code_simp
  have p: "parseMessage [0x00, 0x80, 0x02, 0x01, 0x07] = Inr (0, 0, 1, [0x07])"
    by code_simp
  show ?thesis
    using u1 u2 p by (simp add: handleTell_def)
qed

section \<open>Fragmenting swarm: the parts \<^verbatim>\<open>Tell\<close> cuts\<close>

lemma sdiv_nonneg: "0 \<le> a \<Longrightarrow> 0 < b \<Longrightarrow> (a :: int) sdiv b = a div b"
  by (simp add: signed_divide_int_def sgn_if div_eq_0_iff)

lemma smod_nonneg: "0 \<le> a \<Longrightarrow> 0 < b \<Longrightarrow> (a :: int) smod b = a mod b"
  by (simp add: smod_mod_positive)

lemma partCount_pos:
  assumes "0 < u" and "0 \<le> len"
  shows "1 \<le> partCount len u"
    and "(partCount len u - 1) * u \<le> len"
    and "len \<le> partCount len u * u"
    and "partCount len u = max 1 ((len + u - 1) div u)"
proof -
  define q where "q = len div u"
  define r where "r = len mod u"
  have len: "len = q * u + r"
    by (simp add: q_def r_def)
  have r: "0 \<le> r" "r < u"
    using assms(1) by (simp_all add: r_def)
  have q: "0 \<le> q"
    using assms by (simp add: q_def pos_imp_zdiv_nonneg_iff)
  define t where "t = partCount len u"
  have pc: "t = (if r > 0 then q + 1 else if q = 0 then 1 else q)"
    using assms q by (auto simp add: t_def partCount_def Let_def sdiv_nonneg smod_nonneg q_def r_def)
  show "1 \<le> partCount len u"
    using pc q by (auto simp add: t_def [symmetric])
  have "(t - 1) * u \<le> q * u + r"
    using pc r q assms(1) by (auto simp add: algebra_simps)
  then show "(partCount len u - 1) * u \<le> len"
    by (simp add: t_def len [symmetric])
  have "q * u + r \<le> t * u"
    using pc r q assms(1) by (auto simp add: algebra_simps)
  then show "len \<le> partCount len u * u"
    by (simp add: t_def len [symmetric])
  have "(len + u - 1) div u = (if r > 0 then q + 1 else q)"
  proof (cases "r > 0")
    case True
    have "len + u - 1 = (q + 1) * u + (r - 1)"
      by (simp add: len algebra_simps)
    moreover have "((q + 1) * u + (r - 1)) div u = q + 1"
      using True r by simp
    ultimately have "(len + u - 1) div u = q + 1"
      by (simp only:)
    then show ?thesis
      using True by simp
  next
    case False
    then have r0: "r = 0"
      using r by simp
    have "len + u - 1 = q * u + (u - 1)"
      by (simp add: len r0)
    moreover have "(q * u + (u - 1)) div u = q"
      using assms(1) by simp
    ultimately have "(len + u - 1) div u = q"
      by (simp only:)
    then show ?thesis
      using False by simp
  qed
  then show "partCount len u = max 1 ((len + u - 1) div u)"
    using pc q by (auto simp add: t_def [symmetric])
qed

lemma partCount_neg:
  assumes "u < 0" and "0 \<le> len"
  shows "partCount len u \<le> 1"
proof -
  have "len sdiv u = - (len div (- u))"
    using assms by (simp add: signed_divide_int_def sgn_if)
  moreover have "0 \<le> len div (- u)"
    using assms by (simp add: pos_imp_zdiv_nonneg_iff)
  ultimately have "len sdiv u \<le> 0"
    by simp
  then show ?thesis
    by (auto simp add: partCount_def Let_def)
qed

lemma slice_chunk:
  assumes "0 \<le> lo" and "lo \<le> int (length xs)" and "0 < u"
  shows "slice xs lo (if lo + u < int (length xs) then lo + u else int (length xs))
         = Inr (take (nat u) (drop (nat lo) xs))"
proof (cases "lo + u < int (length xs)")
  case True
  then show ?thesis
    using assms by (simp add: slice_def)
next
  case False
  then have "length (drop (nat lo) xs) \<le> nat u"
    using assms by simp
  then show ?thesis
    using assms False by (simp add: slice_def)
qed

lemma tellParts_ok:
  assumes "0 < u" and "0 \<le> part" and "(n - 1) * u \<le> int (length data)"
  shows "tellParts msgid u n part data =
         Inr (map (\<lambda>j. newMessage msgid (of_nat j) (word_of_int n)
                          (take (nat u) (drop (nat u * j) data))) [nat part..<nat n])"
  using assms
proof (induction msgid u n part data rule: tellParts.induct)
  case (1 msgid u n part data)
  show ?case
  proof (cases "part < n")
    case False
    then show ?thesis
      by (subst tellParts.simps) simp
  next
    case True
    have "u * part \<le> (n - 1) * u"
      using True "1.prems"(1) by (simp add: mult.commute mult_left_mono)
    then have lo: "u * part \<le> int (length data)"
      using "1.prems"(3) by simp
    have lo0: "0 \<le> u * part"
      using "1.prems"(1,2) by simp
    have sl: "slice data (u * part) (if u * part + u < int (length data) then u * part + u else int (length data))
              = Inr (take (nat u) (drop (nat (u * part)) data))"
      by (rule slice_chunk [OF lo0 lo "1.prems"(1)])
    have pb: "partBounds u (int (length data)) part
              = (u * part, if u * part + u < int (length data) then u * part + u else int (length data))"
      by (simp add: partBounds_def Let_def)
    have ih: "tellParts msgid u n (part + 1) data =
         Inr (map (\<lambda>j. newMessage msgid (of_nat j) (word_of_int n)
                          (take (nat u) (drop (nat u * j) data))) [nat (part + 1)..<nat n])"
      using "1.IH" [OF True pb [symmetric] sl "1.prems"(1) _ "1.prems"(3)] "1.prems"(2) by simp
    have up: "[nat part..<nat n] = nat part # [nat (part + 1)..<nat n]"
      using True "1.prems"(2) by (simp add: upt_conv_Cons nat_add_distrib)
    have w: "(word_of_int part :: 8 word) = of_nat (nat part)"
      using "1.prems"(2) by simp
    have d: "nat (u * part) = nat u * nat part"
      using "1.prems"(1,2) by (simp add: nat_mult_distrib)
    show ?thesis
      by (subst tellParts.simps) (simp add: True pb sl ih up w d del: of_nat_nat)
  qed
qed

lemma partBounds_in_range:
  assumes "0 < u" and "0 \<le> part" and "part < partCount (int (length data)) u"
  shows "case partBounds u (int (length data)) part of
           (start, stop) \<Rightarrow> 0 \<le> start \<and> start \<le> stop \<and> stop \<le> int (length data)"
proof -
  have "u * part \<le> (partCount (int (length data)) u - 1) * u"
    using assms by (simp add: mult.commute mult_left_mono)
  then have "u * part \<le> int (length data)"
    using partCount_pos(2) [OF assms(1), of "int (length data)"] by simp
  moreover have "0 \<le> u * part"
    using assms by simp
  ultimately show ?thesis
    using assms(1) by (simp add: partBounds_def Let_def)
qed

text \<open>
  C9, as the code has it. \<^verbatim>\<open>Tell\<close> panics with a division by zero exactly when the
  lower MTU equals \<^verbatim>\<open>Overhead\<close>. For every other lower MTU it returns without a
  panic; above \<^verbatim>\<open>Overhead\<close> every part's slice bounds satisfy
  \<open>0 \<le> start \<le> end \<le> len(data)\<close>. (Below \<^verbatim>\<open>Overhead\<close> the part count is at most one and
  the loop that slices never runs.)
\<close>

theorem frag_Tell_panics:
  "(lowerMTU = frag_Overhead \<longrightarrow> frag_Tell pick s lowerMTU lowerTell addr data = Inl DivideByZero)
   \<and> (lowerMTU \<noteq> frag_Overhead \<longrightarrow> \<not> isl (frag_Tell pick s lowerMTU lowerTell addr data))
   \<and> (frag_Overhead < lowerMTU \<longrightarrow>
        (\<forall>part. 0 \<le> part \<and> part < partCount (int (length data)) (lowerMTU - frag_Overhead) \<longrightarrow>
           (case partBounds (lowerMTU - frag_Overhead) (int (length data)) part of
              (start, stop) \<Rightarrow> 0 \<le> start \<and> start \<le> stop \<and> stop \<le> int (length data))))"
proof -
  define u where "u = lowerMTU - frag_Overhead"
  define n where "n = partCount (int (length data)) u"
  have a: "frag_Tell pick s lowerMTU lowerTell addr data = Inl DivideByZero" if "lowerMTU = frag_Overhead"
    using that by (simp add: frag_Tell_def Let_def)
  have b: "\<not> isl (frag_Tell pick s lowerMTU lowerTell addr data)" if "lowerMTU \<noteq> frag_Overhead"
  proof -
    have u0: "u \<noteq> 0"
      using that by (simp add: u_def)
    define msgid where "msgid = (case msgIDs s addr of None \<Rightarrow> 0 | Some v \<Rightarrow> v)"
    have "\<exists>msgs. tellParts msgid u n 0 data = Inr msgs" if "n \<noteq> 1"
    proof (cases "0 < u")
      case True
      show ?thesis
        using tellParts_ok [OF True, of 0 n data msgid] partCount_pos(2) [OF True, of "int (length data)"]
        by (simp add: n_def)
    next
      case False
      then have "u < 0"
        using u0 by simp
      then have "n \<le> 1"
        unfolding n_def by (rule partCount_neg) simp
      moreover have "n \<noteq> 0"
        by (simp add: n_def partCount_def Let_def)
      ultimately have "\<not> 0 < n"
        using that by linarith
      then show ?thesis
        by (subst tellParts.simps) simp
    qed
    then obtain msgs where "n \<noteq> 1 \<longrightarrow> tellParts msgid u n 0 data = Inr msgs"
      by auto
    moreover have "frag_Tell pick s lowerMTU lowerTell addr data =
       (if n = 1 then (let msg = newMessage msgid 0 1 data
                       in Inr (lowerTell msg, [msg], s\<lparr>msgIDs := (msgIDs s)(addr \<mapsto> msgid + 1)\<rparr>))
        else (case tellParts msgid u n 0 data of
                Inl p \<Rightarrow> Inl p
              | Inr msgs \<Rightarrow> Inr (eg_Wait pick (map lowerTell msgs), msgs,
                                   s\<lparr>msgIDs := (msgIDs s)(addr \<mapsto> msgid + 1)\<rparr>)))"
      using u0 unfolding frag_Tell_def Let_def u_def n_def msgid_def by simp
    ultimately show ?thesis
      by (simp add: Let_def)
  qed
  have c: "case partBounds u (int (length data)) part of
              (start, stop) \<Rightarrow> 0 \<le> start \<and> start \<le> stop \<and> stop \<le> int (length data)"
    if "frag_Overhead < lowerMTU" "0 \<le> part" "part < partCount (int (length data)) u" for part
  proof (rule partBounds_in_range)
    show "0 < u"
      using that(1) by (simp add: u_def)
  qed (use that in simp_all)
  have c': "\<forall>part. 0 \<le> part \<and> part < partCount (int (length data)) (lowerMTU - frag_Overhead) \<longrightarrow>
           (case partBounds (lowerMTU - frag_Overhead) (int (length data)) part of
              (start, stop) \<Rightarrow> 0 \<le> start \<and> start \<le> stop \<and> stop \<le> int (length data))"
    if "frag_Overhead < lowerMTU"
    using c [OF that] unfolding u_def by simp
  show ?thesis
    using a b c' by (intro conjI impI) assumption+
qed

text \<open>
  C9 as stated fails below \<^verbatim>\<open>Overhead\<close>: with a lower MTU of 10 the divisor is \<open>-5\<close>,
  nothing panics, and \<^verbatim>\<open>Tell\<close> returns \<^verbatim>\<open>nil\<close> having sent nothing.
\<close>

theorem frag_Tell_below_overhead_no_panic:
  "\<not> (frag_Overhead < 10)
   \<and> \<not> isl (frag_Tell 0 (frag_newSwarm \<lparr>closeCalls = 0, closeResult = None\<rparr> 1024) 10 (\<lambda>m. None) ''peer''
              [[1], [2], [3], [4], [5]])
   \<and> (case frag_Tell 0 (frag_newSwarm \<lparr>closeCalls = 0, closeResult = None\<rparr> 1024) 10 (\<lambda>m. None) ''peer''
              [[1], [2], [3], [4], [5]] of
         Inl p \<Rightarrow> False
       | Inr (r, msgs, s') \<Rightarrow> r = None \<and> msgs = [])"
  by code_simp

theorem frag_Tell_panics_witness:
  "frag_Tell 0 (frag_newSwarm \<lparr>closeCalls = 0, closeResult = None\<rparr> 1024) 15 (\<lambda>m. None) ''peer'' [[1], [2]]
     = Inl DivideByZero
   \<and> \<not> isl (frag_Tell 0 (frag_newSwarm \<lparr>closeCalls = 0, closeResult = None\<rparr> 1024) 17 (\<lambda>m. None) ''peer''
              [[1], [2], [3]])
   \<and> (case partBounds (17 - frag_Overhead) (int (length [[1], [2], [3 :: byte]])) 1 of
         (start, stop) \<Rightarrow> 0 \<le> start \<and> start \<le> stop \<and> stop \<le> int (length [[1], [2], [3 :: byte]]))"
proof -
  have o: "frag_Overhead = 15"
    by (simp add: frag_Overhead_def MaxVarintLen32_def)
  have n: "partCount 3 2 = 2"
    by code_simp
  note t15 = frag_Tell_panics [of 15 0 "frag_newSwarm \<lparr>closeCalls = 0, closeResult = None\<rparr> 1024"
        "\<lambda>m. None" "''peer''" "[[1], [2]]"]
  note t17 = frag_Tell_panics [of 17 0 "frag_newSwarm \<lparr>closeCalls = 0, closeResult = None\<rparr> 1024"
        "\<lambda>m. None" "''peer''" "[[1], [2], [3]]"]
  have "\<forall>part. 0 \<le> part \<and> part < (2::int) \<longrightarrow>
          (case partBounds 2 3 part of (start, stop) \<Rightarrow> 0 \<le> start \<and> start \<le> stop \<and> stop \<le> 3)"
    using t17 by (simp add: o n)
  then have "case partBounds 2 3 1 of (start, stop) \<Rightarrow> 0 \<le> start \<and> start \<le> stop \<and> stop \<le> (3::int)"
    by (rule allE [where x = 1]) simp
  then show ?thesis
    using t15 t17 by (simp add: o)
qed

section \<open>Fragmenting swarm: fragment and reassemble\<close>

lemma ucast_back_32: "(ucast (ucast (w :: 32 word) :: 64 word) :: 32 word) = w"
  by (rule bit_word_eqI) (simp add: bit_simps)

lemma ucast_back_8: "(ucast (ucast (w :: 8 word) :: 64 word) :: 8 word) = w"
  by (rule bit_word_eqI) (simp add: bit_simps)

lemma parse_framed:
  "parseMessage (VecBytes (newMessage msgid part totalParts chunk))
   = (if part \<ge> totalParts then Inl PartGeTotal
      else Inr (msgid, part, totalParts, concat chunk))"
proof -
  define p0 where "p0 = PutUvarint (ucast msgid)"
  define p1 where "p1 = PutUvarint (ucast part)"
  define p2 where "p2 = PutUvarint (ucast totalParts)"
  define x where "x = p0 @ p1 @ p2 @ concat chunk"
  have x: "VecBytes (newMessage msgid part totalParts chunk) = x"
    by (simp add: VecBytes_def newMessage_def appendUvarint_def Let_def x_def p0_def p1_def p2_def)
  have l: "p0 \<noteq> []" "p1 \<noteq> []" "p2 \<noteq> []"
    by (simp_all add: p0_def p1_def p2_def PutUvarint_nonempty)
  have u0: "Uvarint x = (ucast msgid, int (length p0))"
    unfolding x_def p0_def by (rule Uvarint_PutUvarint)
  have u1: "Uvarint (drop (nat (int (length p0))) x) = (ucast part, int (length p1))"
    unfolding x_def p1_def by (simp add: Uvarint_PutUvarint)
  have u2: "Uvarint (drop (nat (int (length p0)) + nat (int (length p1))) x) = (ucast totalParts, int (length p2))"
    unfolding x_def p2_def by (simp add: Uvarint_PutUvarint)
  show ?thesis
    unfolding x using parseMessage_fields [OF u0 u1 u2] l
    by (simp add: ucast_back_32 ucast_back_8 x_def)
qed

lemma parse_newMessage:
  assumes "part < totalParts"
  shows "parseMessage (VecBytes (newMessage msgid part totalParts chunk))
         = Inr (msgid, part, totalParts, concat chunk)"
  using assms by (simp add: parse_framed not_le)

lemma slotsOf_empty: "slotsOf n c {} = replicate n None"
  by (simp add: slotsOf_def map_replicate_const)

lemma slotsOf_update: "j < n \<Longrightarrow> (slotsOf n c D)[j := Some (c j)] = slotsOf n c (insert j D)"
  by (rule nth_equalityI) (auto simp add: slotsOf_def nth_list_update)

lemma slotsOf_full: "D \<subseteq> {..<n} \<Longrightarrow> list_all (\<lambda>p. p \<noteq> None) (slotsOf n c D) \<longleftrightarrow> D = {..<n}"
  by (auto simp add: slotsOf_def list_all_iff)

lemma length_slotsOf: "length (slotsOf n c D) = n"
  by (simp add: slotsOf_def)

lemma assemble_full:
  "assemble \<lparr>parts = Some (slotsOf n c {..<n})\<rparr> = concat (map c [0..<n])"
proof -
  have "map (\<lambda>p. case p of None \<Rightarrow> [] | Some b \<Rightarrow> b) (slotsOf n c {..<n}) = map c [0..<n]"
    unfolding slotsOf_def map_map by (rule map_cong) simp_all
  then show ?thesis
    by (simp add: assemble_def)
qed

lemma unat_of_nat_8: "k \<le> 255 \<Longrightarrow> unat (of_nat k :: 8 word) = k"
  by (simp add: unat_of_nat)

lemma handleTell_part:
  assumes n: "2 \<le> n" "n \<le> 255"
    and j: "j < n"
    and D: "D \<subseteq> {..<n}"
    and st: "aggs s (src, msgid) = (if D = {} then None else Some \<lparr>parts = Some (slotsOf n c D)\<rparr>)"
    and p: "parseMessage x = Inr (msgid, of_nat j, of_nat n, c j)"
  shows "handleTell s \<lparr>Src = src, Dst = dst, Payload = x\<rparr> =
      (if insert j D = {..<n}
       then Inr ([\<lparr>Src = src, Dst = dst, Payload = concat (map c [0..<n])\<rparr>],
                 s\<lparr>aggs := (aggs s)((src, msgid) := None)\<rparr>)
       else Inr ([], s\<lparr>aggs := (aggs s)((src, msgid) \<mapsto> \<lparr>parts = Some (slotsOf n c (insert j D))\<rparr>)\<rparr>))"
proof -
  have un: "unat (of_nat n :: 8 word) = n" and uj: "unat (of_nat j :: 8 word) = j"
    using n j by (simp_all add: unat_of_nat_8)
  have n1: "(of_nat n :: 8 word) \<noteq> 1"
  proof
    assume "(of_nat n :: 8 word) = 1"
    then have "unat (of_nat n :: 8 word) = 1"
      by simp
    then show False
      using un n by simp
  qed
  define agg where "agg = (case aggs s (src, msgid) of None \<Rightarrow> newAggregator | Some a \<Rightarrow> a)"
  have ps: "(case parts agg of None \<Rightarrow> replicate (unat (of_nat n :: 8 word)) None | Some ps \<Rightarrow> ps)
            = slotsOf n c D"
    using st by (auto simp add: agg_def newAggregator_def un slotsOf_empty)
  have ins: "insert j D \<subseteq> {..<n}"
    using j D by simp
  have ap: "addPart agg (of_nat j) (of_nat n) (c j)
            = Inr (insert j D = {..<n}, agg\<lparr>parts := Some (slotsOf n c (insert j D))\<rparr>)"
    using j by (simp add: addPart_def ps Let_def uj slotsOf_update slotsOf_full [OF ins] length_slotsOf
        del: not_None_eq)
  have ag: "agg\<lparr>parts := Some ps'\<rparr> = \<lparr>parts = Some ps'\<rparr>" for ps'
    by simp
  show ?thesis
    using n1 by (simp add: handleTell_def p Let_def agg_def [symmetric] ap ag assemble_full)
qed

lemma handleTells_order:
  assumes n: "2 \<le> n" "n \<le> 255"
    and fresh: "aggs rs (src, msgid) = None"
    and p: "\<And>j. j < n \<Longrightarrow> parseMessage (pl j) = Inr (msgid, of_nat j, of_nat n, c j)"
    and st: "\<And>D. st D = (if D = {} then rs
                else rs\<lparr>aggs := (aggs rs)((src, msgid) \<mapsto> \<lparr>parts = Some (slotsOf n c D)\<rparr>)\<rparr>)"
  shows "distinct js \<Longrightarrow> set js \<subseteq> {..<n} \<Longrightarrow> D \<inter> set js = {} \<Longrightarrow> D \<subseteq> {..<n} \<Longrightarrow> D \<noteq> {..<n} \<Longrightarrow>
     handleTells (st D) (map (\<lambda>j. \<lparr>Src = src, Dst = dst, Payload = pl j\<rparr>) js)
     = (if D \<union> set js = {..<n}
        then Inr ([\<lparr>Src = src, Dst = dst, Payload = concat (map c [0..<n])\<rparr>], rs)
        else Inr ([], st (D \<union> set js)))"
proof (induction js arbitrary: D)
  case Nil
  then show ?case by simp
next
  case (Cons j js)
  have j: "j < n" and jD: "j \<notin> D" and jjs: "j \<notin> set js"
    using Cons.prems by auto
  have ag: "aggs (st D) (src, msgid) = (if D = {} then None else Some \<lparr>parts = Some (slotsOf n c D)\<rparr>)"
    by (simp add: st fresh)
  note h = handleTell_part [OF n j Cons.prems(4) ag p [OF j], of dst]
  show ?case
  proof (cases "insert j D = {..<n}")
    case True
    have restore: "(st D)\<lparr>aggs := (aggs (st D))((src, msgid) := None)\<rparr> = rs"
    proof -
      have "(aggs (st D))((src, msgid) := None) = aggs rs"
        using fresh by (auto simp add: st fun_eq_iff)
      then show ?thesis
        by (simp add: st)
    qed
    have "set js \<subseteq> insert j D"
      using Cons.prems(2) True by auto
    moreover have "D \<inter> set js = {}"
      using Cons.prems(3) by auto
    ultimately have "x \<notin> set js" for x
      using jjs by blast
    then have "js = []"
      by (cases js) auto
    then show ?thesis
      using h True restore by simp
  next
    case False
    have next_st: "(st D)\<lparr>aggs := (aggs (st D))((src, msgid) \<mapsto> \<lparr>parts = Some (slotsOf n c (insert j D))\<rparr>)\<rparr>
                   = st (insert j D)"
      by (simp add: st)
    have ih: "handleTells (st (insert j D)) (map (\<lambda>j. \<lparr>Src = src, Dst = dst, Payload = pl j\<rparr>) js)
     = (if insert j D \<union> set js = {..<n}
        then Inr ([\<lparr>Src = src, Dst = dst, Payload = concat (map c [0..<n])\<rparr>], rs)
        else Inr ([], st (insert j D \<union> set js)))"
      using Cons.prems jjs j False by (intro Cons.IH) auto
    show ?thesis
      using h False next_st ih by simp
  qed
qed

lemma concat_chunks_take:
  "concat (map (\<lambda>j. take u (drop (u * j) xs)) [0..<n]) = take (u * n) xs"
proof (induction n)
  case 0
  then show ?case by simp
next
  case (Suc n)
  have "take (u * n) xs @ take u (drop (u * n) xs) = take (u * n + u) xs"
    by (simp add: take_add)
  then show ?case
    using Suc by (simp add: add.commute)
qed

lemma concat_map_concat: "concat (map concat xss) = concat (concat xss)"
  by (induction xss) auto

lemma concat_chunks:
  assumes "length xs \<le> u * n"
  shows "concat (map (\<lambda>j. concat (take u (drop (u * j) xs))) [0..<n]) = concat xs"
proof -
  have "concat (map (\<lambda>j. concat (take u (drop (u * j) xs))) [0..<n])
        = concat (map concat (map (\<lambda>j. take u (drop (u * j) xs)) [0..<n]))"
    by (simp add: comp_def)
  also have "\<dots> = concat (concat (map (\<lambda>j. take u (drop (u * j) xs)) [0..<n]))"
    by (rule concat_map_concat)
  also have "\<dots> = concat xs"
    using assms by (simp add: concat_chunks_take)
  finally show ?thesis .
qed

lemma order_single: "distinct js \<Longrightarrow> set js = {..<Suc 0} \<Longrightarrow> js = [0]"
proof -
  assume d: "distinct js" and s: "set js = {..<Suc 0}"
  then have "length js = card {..<Suc 0}"
    using distinct_card [of js] by simp
  then obtain x where "js = [x]"
    by (cases js) auto
  then show ?thesis
    using s by auto
qed

lemma handleTells_all_rejected:
  "(\<And>m. m \<in> set ms \<Longrightarrow> \<exists>e. parseMessage (Payload m) = Inl e) \<Longrightarrow> handleTells s ms = Inr ([], s)"
proof (induction ms)
  case Nil
  then show ?case by simp
next
  case (Cons m ms)
  from Cons.prems [of m] obtain e where "parseMessage (Payload m) = Inl e"
    by auto
  then have "handleTell s m = Inr ([], s)"
    by (rule handleTell_drops)
  moreover have "handleTells s ms = Inr ([], s)"
    using Cons.prems by (intro Cons.IH) auto
  ultimately show ?case
    by simp
qed

lemma eg_Wait_all_ok: "eg_Wait pick (map (\<lambda>m. None) ms) = None"
proof -
  have "List.map_filter (\<lambda>r. r) (map (\<lambda>m. None) ms) = ([] :: frag_error list)"
    by (induction ms) (simp_all add: map_filter_simps)
  then show ?thesis
    by (simp add: eg_Wait_def)
qed

text \<open>
  \<^verbatim>\<open>Tell\<close> counts buffers, not bytes: a payload handed over as a single buffer is
  sent as one part, whatever its size and whatever the lower MTU above
  \<^verbatim>\<open>Overhead\<close>.
\<close>

lemma frag_Tell_single_buffer:
  assumes "frag_Overhead < lowerMTU"
  shows "frag_Tell pick s lowerMTU lowerTell addr [p] =
           Inr (lowerTell (newMessage (case msgIDs s addr of None \<Rightarrow> 0 | Some v \<Rightarrow> v) 0 1 [p]),
                [newMessage (case msgIDs s addr of None \<Rightarrow> 0 | Some v \<Rightarrow> v) 0 1 [p]],
                s\<lparr>msgIDs := (msgIDs s)(addr \<mapsto> (case msgIDs s addr of None \<Rightarrow> 0 | Some v \<Rightarrow> v) + 1)\<rparr>)"
proof -
  have u: "0 < lowerMTU - frag_Overhead"
    using assms by simp
  have "partCount 1 (lowerMTU - frag_Overhead) = 1"
    using partCount_pos(4) [OF u, of 1] u by simp
  then show ?thesis
    using u by (simp add: frag_Tell_def Let_def)
qed

text \<open>
  Where reassembly does give the payload back. Let the lower MTU exceed
  \<^verbatim>\<open>Overhead\<close>, let the number of parts \<^verbatim>\<open>Tell\<close> computes be at most 255, and let the
  receiver hold no aggregator for the sender and the message id. Then \<^verbatim>\<open>Tell\<close>
  returns without a panic, hands \<open>max(1, ceil(len(data) / chunk))\<close> messages to the
  swarm below (the length counted in buffers of the vector, \<open>chunk\<close> being the lower
  MTU less \<^verbatim>\<open>Overhead\<close>), and feeding these messages to \<^verbatim>\<open>handleTell\<close> in any order
  of arrival passes up exactly one message, whose payload is the bytes of \<open>data\<close>,
  and leaves the receiver's state as it was.
\<close>

lemma reassembly_up_to_255_parts:
  assumes mtu: "frag_Overhead < lowerMTU"
    and cnt: "partCount (int (length data)) (lowerMTU - frag_Overhead) \<le> 255"
    and fresh: "aggs rs (src, case msgIDs s addr of None \<Rightarrow> 0 | Some v \<Rightarrow> v) = None"
  shows "\<exists>r msgs s'. frag_Tell pick s lowerMTU lowerTell addr data = Inr (r, msgs, s')
          \<and> int (length msgs)
              = max 1 ((int (length data) + (lowerMTU - frag_Overhead) - 1) div (lowerMTU - frag_Overhead))
          \<and> (\<forall>order. distinct order \<and> set order = {..<length msgs} \<longrightarrow>
               handleTells rs (map (\<lambda>i. \<lparr>Src = src, Dst = dst, Payload = VecBytes (msgs ! i)\<rparr>) order)
               = Inr ([\<lparr>Src = src, Dst = dst, Payload = VecBytes data\<rparr>], rs))"
proof -
  define u where "u = lowerMTU - frag_Overhead"
  define n where "n = partCount (int (length data)) u"
  define msgid where "msgid = (case msgIDs s addr of None \<Rightarrow> 0 | Some v \<Rightarrow> v)"
  define s' where "s' = s\<lparr>msgIDs := (msgIDs s)(addr \<mapsto> msgid + 1)\<rparr>"
  have u: "0 < u"
    using mtu by (simp add: u_def)
  note pc = partCount_pos [OF u, of "int (length data)", simplified, folded n_def]
  have T: "frag_Tell pick s lowerMTU lowerTell addr data =
       (if n = 1 then (let msg = newMessage msgid 0 1 data in Inr (lowerTell msg, [msg], s'))
        else (case tellParts msgid u n 0 data of
                Inl p \<Rightarrow> Inl p
              | Inr msgs \<Rightarrow> Inr (eg_Wait pick (map lowerTell msgs), msgs, s')))"
    using u unfolding frag_Tell_def Let_def u_def n_def msgid_def s'_def by simp
  show ?thesis
  proof (cases "n = 1")
    case True
    have t: "frag_Tell pick s lowerMTU lowerTell addr data
             = Inr (lowerTell (newMessage msgid 0 1 data), [newMessage msgid 0 1 data], s')"
      using T True by (simp add: Let_def)
    have p: "parseMessage (VecBytes (newMessage msgid 0 1 data)) = Inr (msgid, 0, 1, concat data)"
      by (rule parse_newMessage) simp
    have h: "handleTells rs (map (\<lambda>i. \<lparr>Src = src, Dst = dst, Payload = VecBytes ([newMessage msgid 0 1 data] ! i)\<rparr>) order)
             = Inr ([\<lparr>Src = src, Dst = dst, Payload = VecBytes data\<rparr>], rs)"
      if "distinct order" "set order = {..<Suc 0}" for order
      using order_single [OF that] p by (simp add: handleTell_def VecBytes_def)
    show ?thesis
      using t h pc(4) True by (simp add: u_def)
  next
    case False
    then have n2: "2 \<le> n"
      using pc(1) by simp
    define m where "m = nat n"
    have m: "2 \<le> m" "m \<le> 255" "int m = n"
      using n2 cnt by (simp_all add: m_def n_def u_def)
    define chunk where "chunk j = take (nat u) (drop (nat u * j) data)" for j
    define msgs where "msgs = map (\<lambda>j. newMessage msgid (of_nat j) (word_of_int n) (chunk j)) [0..<m]"
    have tp: "tellParts msgid u n 0 data = Inr msgs"
      using tellParts_ok [OF u, of 0 n data msgid] pc(2) by (simp add: msgs_def chunk_def m_def)
    have t: "frag_Tell pick s lowerMTU lowerTell addr data = Inr (eg_Wait pick (map lowerTell msgs), msgs, s')"
      using T False tp by simp
    have len: "length msgs = m"
      by (simp add: msgs_def)
    have wn: "(word_of_int n :: 8 word) = of_nat m"
      unfolding m(3) [symmetric] by simp
    have p: "parseMessage (VecBytes (msgs ! j)) = Inr (msgid, of_nat j, of_nat m, concat (chunk j))"
      if "j < m" for j
    proof -
      have "(of_nat j :: 8 word) < of_nat m"
        using that m(2) by (simp add: word_less_nat_alt unat_of_nat_8)
      then show ?thesis
        using that by (simp add: msgs_def wn parse_newMessage)
    qed
    have fr: "aggs rs (src, msgid) = None"
      using fresh by (simp add: msgid_def)
    define st where "st D = (if D = {} then rs
                else rs\<lparr>aggs := (aggs rs)((src, msgid) \<mapsto> \<lparr>parts = Some (slotsOf m (\<lambda>j. concat (chunk j)) D)\<rparr>)\<rparr>)" for D
    have full: "concat (map (\<lambda>j. concat (chunk j)) [0..<m]) = concat data"
    proof -
      have "int (length data) \<le> int (nat u * m)"
        using pc(3) u m(3) by (simp add: mult.commute)
      then have "length data \<le> nat u * m"
        by linarith
      then show ?thesis
        unfolding chunk_def by (rule concat_chunks)
    qed
    have h: "handleTells rs (map (\<lambda>i. \<lparr>Src = src, Dst = dst, Payload = VecBytes (msgs ! i)\<rparr>) order)
             = Inr ([\<lparr>Src = src, Dst = dst, Payload = VecBytes data\<rparr>], rs)"
      if "distinct order" "set order = {..<m}" for order
    proof -
      have "0 \<in> {..<m}"
        using m(1) by simp
      then have ne: "({} :: nat set) \<noteq> {..<m}"
        by blast
      have "handleTells (st {}) (map (\<lambda>j. \<lparr>Src = src, Dst = dst, Payload = VecBytes (msgs ! j)\<rparr>) order)
            = (if {} \<union> set order = {..<m}
               then Inr ([\<lparr>Src = src, Dst = dst, Payload = concat (map (\<lambda>j. concat (chunk j)) [0..<m])\<rparr>], rs)
               else Inr ([], st ({} \<union> set order)))"
        by (rule handleTells_order [OF m(1,2) fr p st_def that(1)]) (use that(2) ne in auto)
      then show ?thesis
        using that(2) by (simp add: st_def full VecBytes_def)
    qed
    have cntv: "int (length msgs) = max 1 ((int (length data) + u - 1) div u)"
      using pc(4) len m(3) by simp
    show ?thesis
      using t h cntv len by (simp add: u_def)
  qed
qed

lemma PutUvarint_small: "x < 0x80 \<Longrightarrow> PutUvarint x = [ucast x]"
proof -
  assume "x < 0x80"
  then have "\<not> 0x80 \<le> x"
    by (simp add: not_le)
  then show ?thesis
    by (subst PutUvarint.simps) simp
qed

lemma PutUvarint_byte_length: "length (PutUvarint (ucast (w :: byte))) \<le> 2"
proof (cases "(ucast w :: 64 word) < 0x80")
  case True
  then show ?thesis
    by (simp add: PutUvarint_small)
next
  case False
  have "unat w < 256"
    using unsigned_less [of w] by simp
  then have "unat (ucast w :: 64 word) < 256"
    by (simp add: unsigned_ucast_eq take_bit_nat_eq_self)
  then have "unat (drop_bit 7 (ucast w :: 64 word)) < 2"
    by (simp add: drop_bit_eq_div unat_div)
  then have "drop_bit 7 (ucast w :: 64 word) < 0x80"
    by (simp add: word_less_nat_alt)
  then have "length (PutUvarint (drop_bit 7 (ucast w :: 64 word))) = 1"
    by (simp add: PutUvarint_small)
  then show ?thesis
    using False by (subst PutUvarint.simps) simp
qed

text \<open>
  C2 fails on the code, in two ways. The swarm below has MTU 16 and refuses what is
  larger; \<^verbatim>\<open>Overhead\<close> is 15, so the chunk size is 1.

  \<^item> \<^verbatim>\<open>Tell\<close> measures the payload with \<^verbatim>\<open>len(data)\<close> and cuts it with
    \<^verbatim>\<open>data[start:end]\<close> on a \<^verbatim>\<open>p2p.IOVec\<close>, so it counts and cuts buffers, not bytes.
    A payload of 1000 bytes handed over as one buffer is not split into 1000 parts:
    it is framed as the single part 0 of 1, a message of 1003 bytes, which the swarm
    below refuses, so nothing is delivered.

  \<^item> \<^verbatim>\<open>Tell\<close> narrows the part count with \<^verbatim>\<open>uint8(total)\<close> without a check. A payload
    of 256 one-byte buffers is cut into 256 parts, each framed with total
    \<^verbatim>\<open>uint8(256) = 0\<close>. The swarm below accepts all of them and \<^verbatim>\<open>Tell\<close> returns
    \<^verbatim>\<open>nil\<close>, but the receiver rejects every part (\<^verbatim>\<open>part >= total\<close>) and passes
    nothing up.
\<close>

theorem fragment_roundtrip_fails:
  "(case frag_Tell pick (frag_newSwarm \<lparr>closeCalls = 0, closeResult = None\<rparr> 1024) 16
          (\<lambda>m. if 16 < length (VecBytes m) then Some (LowerError ''message too large'') else None)
          ''peer'' [replicate 1000 7] of
      Inl p \<Rightarrow> False
    | Inr (r, msgs, s') \<Rightarrow>
        r = Some (LowerError ''message too large'') \<and> length msgs = 1
        \<and> length (VecBytes (msgs ! 0)) = 1003)
   \<and> (case frag_Tell pick (frag_newSwarm \<lparr>closeCalls = 0, closeResult = None\<rparr> 1024) 16
          (\<lambda>m. if 16 < length (VecBytes m) then Some (LowerError ''message too large'') else None)
          ''peer'' (replicate 256 [7]) of
      Inl p \<Rightarrow> False
    | Inr (r, msgs, s') \<Rightarrow>
        r = None \<and> length msgs = 256
        \<and> handleTells (frag_newSwarm \<lparr>closeCalls = 0, closeResult = None\<rparr> 1024)
               (map (\<lambda>m. \<lparr>Src = ''me'', Dst = ''peer'', Payload = VecBytes m\<rparr>) msgs)
            = Inr ([], frag_newSwarm \<lparr>closeCalls = 0, closeResult = None\<rparr> 1024))"
proof -
  let ?s = "frag_newSwarm \<lparr>closeCalls = 0, closeResult = None\<rparr> 1024"
  let ?tell = "\<lambda>m. if 16 < length (VecBytes m) then Some (LowerError ''message too large'') else None"
  have o: "frag_Overhead = 15"
    by (simp add: frag_Overhead_def MaxVarintLen32_def)
  have id0: "(case msgIDs ?s ''peer'' of None \<Rightarrow> 0 | Some v \<Rightarrow> v) = 0"
    by (simp add: frag_newSwarm_def)
  have p0: "PutUvarint 0 = [0]" and p1: "PutUvarint 1 = [1]"
    by (simp_all add: PutUvarint_small)
  txt \<open>One buffer of 1000 bytes.\<close>
  let ?big = "[replicate 1000 (7 :: byte)]"
  have lb: "length (VecBytes (newMessage 0 0 1 ?big)) = 1003"
    by (simp add: VecBytes_def newMessage_def appendUvarint_def Let_def p0 p1)
  have tb: "frag_Tell pick ?s 16 ?tell ''peer'' ?big
            = Inr (?tell (newMessage 0 0 1 ?big), [newMessage 0 0 1 ?big],
                   ?s\<lparr>msgIDs := (msgIDs ?s)(''peer'' \<mapsto> 0 + 1)\<rparr>)"
    using frag_Tell_single_buffer [of 16 pick ?s ?tell "''peer''" "replicate 1000 7"]
    by (simp add: id0 o)
  have A: "case frag_Tell pick ?s 16 ?tell ''peer'' ?big of
      Inl p \<Rightarrow> False
    | Inr (r, msgs, s') \<Rightarrow>
        r = Some (LowerError ''message too large'') \<and> length msgs = 1
        \<and> length (VecBytes (msgs ! 0)) = 1003"
    unfolding tb by (simp add: lb)
  txt \<open>256 buffers of one byte.\<close>
  let ?data = "replicate 256 [7 :: byte]"
  define part where "part j = newMessage 0 (of_nat j) (word_of_int 256)
                          (take (nat 1) (drop (nat 1 * j) ?data))" for j
  define msgs where "msgs = map part [nat 0..<nat 256]"
  have n: "partCount 256 1 = 256"
    by code_simp
  have tp: "tellParts 0 1 256 0 ?data = Inr msgs"
    unfolding msgs_def part_def by (rule tellParts_ok) simp_all
  have size: "length (VecBytes (newMessage 0 pt tt chunk)) \<le> 5 + length (concat chunk)"
    for pt tt :: byte and chunk
    using PutUvarint_byte_length [of pt] PutUvarint_byte_length [of tt]
    by (simp add: VecBytes_def newMessage_def appendUvarint_def Let_def p0)
  have small: "?tell (part j) = None" for j
  proof -
    have "length (concat (take (nat 1) (drop (nat 1 * j) ?data))) \<le> 1"
      by (cases "j < 256") simp_all
    then have "length (VecBytes (part j)) \<le> 6"
      unfolding part_def
      using size [of "of_nat j" "word_of_int 256" "take (nat 1) (drop (nat 1 * j) ?data)"]
      by linarith
    then show ?thesis
      by simp
  qed
  have "map ?tell msgs = map (\<lambda>m. None) msgs"
    unfolding msgs_def by (simp add: small)
  then have w: "eg_Wait pick (map ?tell msgs) = None"
    by (simp only: eg_Wait_all_ok)
  have t: "frag_Tell pick ?s 16 ?tell ''peer'' ?data
           = Inr (None, msgs, ?s\<lparr>msgIDs := (msgIDs ?s)(''peer'' \<mapsto> 0 + 1)\<rparr>)"
    by (simp add: frag_Tell_def Let_def o n tp w id0)
  have len: "length msgs = 256"
    by (simp add: msgs_def)
  have rej: "\<exists>e. parseMessage (Payload m) = Inl e"
    if "m \<in> set (map (\<lambda>m. \<lparr>Src = ''me'', Dst = ''peer'', Payload = VecBytes m\<rparr>) msgs)" for m
  proof -
    have z: "(256 :: 8 word) = 0"
      by simp
    show ?thesis
      using that by (auto simp add: msgs_def part_def parse_framed z)
  qed
  have h: "handleTells ?s (map (\<lambda>m. \<lparr>Src = ''me'', Dst = ''peer'', Payload = VecBytes m\<rparr>) msgs)
           = Inr ([], ?s)"
    by (rule handleTells_all_rejected) (rule rej)
  have B: "case frag_Tell pick ?s 16 ?tell ''peer'' ?data of
      Inl p \<Rightarrow> False
    | Inr (r, msgs, s') \<Rightarrow>
        r = None \<and> length msgs = 256
        \<and> handleTells ?s (map (\<lambda>m. \<lparr>Src = ''me'', Dst = ''peer'', Payload = VecBytes m\<rparr>) msgs)
            = Inr ([], ?s)"
    unfolding t by (simp add: len h)
  show ?thesis
    using A B by (rule conjI)
qed

section \<open>Closing an overlay\<close>

text \<open>
  C8, as the code has it. \<^verbatim>\<open>Close\<close> of the Noise swarm and of the fragmenting swarm
  cancels the swarm's own background task and invokes \<^verbatim>\<open>Close\<close> of the swarm below,
  returning what that call returns. \<^verbatim>\<open>Close\<close> of a multiplexer channel returns \<^verbatim>\<open>nil\<close>
  and leaves the muxer and the swarm it shares among its channels as they were; it
  closes the channel's two hubs: a hub that was open is closed with
  \<^verbatim>\<open>ErrSwarmClosed\<close>, and no hub is open afterwards.
\<close>

theorem overlay_Close_reaches_lower:
  "closeCalls (swarm (snd (noise_Close n))) = closeCalls (swarm n) + 1
   \<and> fst (noise_Close n) = closeResult (swarm n)
   \<and> noise_cancelled (snd (noise_Close n))
   \<and> closeCalls (Swarm (snd (frag_Close f))) = closeCalls (Swarm f) + 1
   \<and> fst (frag_Close f) = closeResult (Swarm f)
   \<and> cancelled (snd (frag_Close f))
   \<and> baseSwarm_m (snd (dynmux_Close b)) = baseSwarm_m b
   \<and> fst (dynmux_Close b) = None
   \<and> (closedWith (tellHub b) = None \<longrightarrow>
        closedWith (tellHub (snd (dynmux_Close b))) = Some ErrSwarmClosed)
   \<and> (closedWith (askHub b) = None \<longrightarrow>
        closedWith (askHub (snd (dynmux_Close b))) = Some ErrSwarmClosed)
   \<and> closedWith (tellHub (snd (dynmux_Close b))) \<noteq> None
   \<and> closedWith (askHub (snd (dynmux_Close b))) \<noteq> None"
  by (simp add: noise_Close_def frag_Close_def dynmux_Close_def lower_Close_def
      CloseWithError_def split: option.split)

text \<open>
  C8 as stated fails for the multiplexer channel: after \<^verbatim>\<open>Close\<close> of a channel the
  \<^verbatim>\<open>Close\<close> of the underlying swarm has not been invoked.
\<close>

theorem dynmux_Close_leaves_lower_open:
  "closeCalls (muxer_s (baseSwarm_m (snd (dynmux_Close
      \<lparr>baseSwarm_m = \<lparr>muxer_s = \<lparr>closeCalls = 0, closeResult = None\<rparr>\<rparr>, name = ''chat'',
       tellHub = \<lparr>closedWith = None\<rparr>, askHub = \<lparr>closedWith = None\<rparr>\<rparr>)))) = 0
   \<and> fst (dynmux_Close
      \<lparr>baseSwarm_m = \<lparr>muxer_s = \<lparr>closeCalls = 0, closeResult = None\<rparr>\<rparr>, name = ''chat'',
       tellHub = \<lparr>closedWith = None\<rparr>, askHub = \<lparr>closedWith = None\<rparr>\<rparr>) = None"
  by (simp add: dynmux_Close_def CloseWithError_def)

theorem overlay_Close_reaches_lower_witness:
  "closedWith (tellHub
      \<lparr>baseSwarm_m = \<lparr>muxer_s = \<lparr>closeCalls = 0, closeResult = None\<rparr>\<rparr>, name = ''chat'',
       tellHub = \<lparr>closedWith = None\<rparr>, askHub = \<lparr>closedWith = None\<rparr>\<rparr>) = None
   \<and> closedWith (askHub
      \<lparr>baseSwarm_m = \<lparr>muxer_s = \<lparr>closeCalls = 0, closeResult = None\<rparr>\<rparr>, name = ''chat'',
       tellHub = \<lparr>closedWith = None\<rparr>, askHub = \<lparr>closedWith = None\<rparr>\<rparr>) = None
   \<and> closedWith (tellHub (snd (dynmux_Close
      \<lparr>baseSwarm_m = \<lparr>muxer_s = \<lparr>closeCalls = 0, closeResult = None\<rparr>\<rparr>, name = ''chat'',
       tellHub = \<lparr>closedWith = None\<rparr>, askHub = \<lparr>closedWith = None\<rparr>\<rparr>))) = Some ErrSwarmClosed
   \<and> closedWith (askHub (snd (dynmux_Close
      \<lparr>baseSwarm_m = \<lparr>muxer_s = \<lparr>closeCalls = 0, closeResult = None\<rparr>\<rparr>, name = ''chat'',
       tellHub = \<lparr>closedWith = None\<rparr>, askHub = \<lparr>closedWith = None\<rparr>\<rparr>))) = Some ErrSwarmClosed"
  using overlay_Close_reaches_lower
    [of _ _ "\<lparr>baseSwarm_m = \<lparr>muxer_s = \<lparr>closeCalls = 0, closeResult = None\<rparr>\<rparr>, name = ''chat'',
       tellHub = \<lparr>closedWith = None\<rparr>, askHub = \<lparr>closedWith = None\<rparr>\<rparr>"]
  by simp

section \<open>MTU of an overlay\<close>

lemma sint_sub_exact:
  fixes a b :: go_int
  assumes "- (2 ^ 63) \<le> sint a - sint b" and "sint a - sint b < 2 ^ 63"
  shows "sint (a - b) = sint a - sint b"
  using assms by (simp add: sint_word_ariths signed_take_bit_int_eq_self)

lemma sint_sub_wrapped:
  fixes a b :: go_int
  assumes "sint a - sint b < - (2 ^ 63)"
  shows "sint (a - b) = sint a - sint b + 2 ^ 64"
proof -
  have la: "- (2 ^ 63) \<le> sint a" and ub: "sint b < 2 ^ 63"
    using sint_ge [of a] sint_lt [of b] by simp_all
  define k where "k = sint a - sint b"
  have k: "- (2 ^ 64) < k" "k < - (2 ^ 63)"
    using la ub assms by (simp_all add: k_def)
  have "signed_take_bit 63 k = take_bit 64 (k + 2 ^ 63) - 2 ^ 63"
    by (simp add: signed_take_bit_eq_take_bit_shift)
  also have "take_bit 64 (k + 2 ^ 63) = (k + 2 ^ 63) mod 2 ^ 64"
    by (simp add: take_bit_eq_mod)
  also have "(k + 2 ^ 63) mod 2 ^ 64 = k + 2 ^ 63 + 2 ^ 64"
    using k by (intro int_mod_pos_eq [where q = "-1"]) simp_all
  finally show ?thesis
    by (simp add: sint_word_ariths k_def)
qed

lemma sint_noise_Overhead: "sint noise_Overhead = 20"
  by (simp add: noise_Overhead_def)

text \<open>
  C4, as the code has it. The Noise swarm and the multiplexer channel report the MTU
  of the swarm below less their overhead (20 for Noise, \<^verbatim>\<open>channelSize\<close>, taken to be
  non-negative, for the channel), computed in Go's wrapping 64-bit \<^verbatim>\<open>int\<close>. When
  the lower MTU is at least the smallest \<^verbatim>\<open>int\<close> plus the overhead (so for every
  non-negative lower MTU), MTU plus overhead equals the lower MTU and the reported
  MTU is positive exactly when the lower MTU exceeds the overhead. When the lower
  MTU is closer than the overhead to the smallest \<^verbatim>\<open>int\<close>, the subtraction wraps
  around and the reported MTU is the lower MTU less the overhead plus \<open>2 ^ 64\<close>, a
  positive number. The fragmenting swarm reports its configured \<open>mtu\<close>, whatever the
  swarm below reports.
\<close>

theorem overlay_MTU:
  "sint noise_Overhead = 20
   \<and> (- (2 ^ 63) + sint noise_Overhead \<le> sint (lowerMTU (Addr a)) \<longrightarrow>
        sint (noise_MTU lowerMTU a) + sint noise_Overhead = sint (lowerMTU (Addr a))
        \<and> (0 < sint (noise_MTU lowerMTU a)) = (sint noise_Overhead < sint (lowerMTU (Addr a))))
   \<and> (sint (lowerMTU (Addr a)) < - (2 ^ 63) + sint noise_Overhead \<longrightarrow>
        sint (noise_MTU lowerMTU a) = sint (lowerMTU (Addr a)) - sint noise_Overhead + 2 ^ 64
        \<and> 0 < sint (noise_MTU lowerMTU a))
   \<and> (0 \<le> sint channelSize \<and> - (2 ^ 63) + sint channelSize \<le> sint (lowerMTU' b) \<longrightarrow>
        sint (dynmux_MTU channelSize lowerMTU' b) + sint channelSize = sint (lowerMTU' b)
        \<and> (0 < sint (dynmux_MTU channelSize lowerMTU' b)) = (sint channelSize < sint (lowerMTU' b)))
   \<and> (0 \<le> sint channelSize \<and> sint (lowerMTU' b) < - (2 ^ 63) + sint channelSize \<longrightarrow>
        sint (dynmux_MTU channelSize lowerMTU' b) = sint (lowerMTU' b) - sint channelSize + 2 ^ 64
        \<and> 0 < sint (dynmux_MTU channelSize lowerMTU' b))
   \<and> frag_MTU f t = mtu f"
proof -
  have sub: "(- (2 ^ 63) + sint c \<le> sint l \<longrightarrow>
               sint (l - c) + sint c = sint l \<and> (0 < sint (l - c)) = (sint c < sint l))
          \<and> (sint l < - (2 ^ 63) + sint c \<longrightarrow>
               sint (l - c) = sint l - sint c + 2 ^ 64 \<and> 0 < sint (l - c))"
    if c: "0 \<le> sint c" for l c :: go_int
  proof (intro conjI impI)
    assume r: "- (2 ^ 63) + sint c \<le> sint l"
    have "sint l - sint c < 2 ^ 63"
      using sint_lt [of l] c by simp
    then have e: "sint (l - c) = sint l - sint c"
      using r by (intro sint_sub_exact) simp_all
    show "sint (l - c) + sint c = sint l"
      by (simp add: e)
    show "(0 < sint (l - c)) = (sint c < sint l)"
      by (simp add: e)
  next
    assume r: "sint l < - (2 ^ 63) + sint c"
    then have "sint l - sint c < - (2 ^ 63)"
      by simp
    then show e: "sint (l - c) = sint l - sint c + 2 ^ 64"
      by (rule sint_sub_wrapped)
    have "- (2 ^ 63) \<le> sint l" and "sint c < 2 ^ 63"
      using sint_ge [of l] sint_lt [of c] by simp_all
    then show "0 < sint (l - c)"
      unfolding e by simp
  qed
  have o: "0 \<le> sint noise_Overhead"
    by (simp add: sint_noise_Overhead)
  have n: "(- (2 ^ 63) + sint noise_Overhead \<le> sint (lowerMTU (Addr a)) \<longrightarrow>
        sint (noise_MTU lowerMTU a) + sint noise_Overhead = sint (lowerMTU (Addr a))
        \<and> (0 < sint (noise_MTU lowerMTU a)) = (sint noise_Overhead < sint (lowerMTU (Addr a))))
   \<and> (sint (lowerMTU (Addr a)) < - (2 ^ 63) + sint noise_Overhead \<longrightarrow>
        sint (noise_MTU lowerMTU a) = sint (lowerMTU (Addr a)) - sint noise_Overhead + 2 ^ 64
        \<and> 0 < sint (noise_MTU lowerMTU a))"
    unfolding noise_MTU_def by (rule sub [OF o])
  have d: "(0 \<le> sint channelSize \<and> - (2 ^ 63) + sint channelSize \<le> sint (lowerMTU' b) \<longrightarrow>
        sint (dynmux_MTU channelSize lowerMTU' b) + sint channelSize = sint (lowerMTU' b)
        \<and> (0 < sint (dynmux_MTU channelSize lowerMTU' b)) = (sint channelSize < sint (lowerMTU' b)))
   \<and> (0 \<le> sint channelSize \<and> sint (lowerMTU' b) < - (2 ^ 63) + sint channelSize \<longrightarrow>
        sint (dynmux_MTU channelSize lowerMTU' b) = sint (lowerMTU' b) - sint channelSize + 2 ^ 64
        \<and> 0 < sint (dynmux_MTU channelSize lowerMTU' b))"
    unfolding dynmux_MTU_def
    using sub [of channelSize "lowerMTU' b"] by blast
  have f: "frag_MTU f t = mtu f"
    by (simp add: frag_MTU_def)
  show ?thesis
    using sint_noise_Overhead n d f by (intro conjI) blast+
qed

text \<open>
  C4 as stated fails: a fragmenting swarm configured with MTU 1024 over a swarm whose
  MTU is 16 reports 1024, and \<open>1024 + 15 \<le> 16\<close> is false; a Noise swarm over the same
  swarm reports \<open>16 - 20\<close>, which is not positive.
\<close>

theorem frag_MTU_exceeds_lower:
  "\<not> (frag_MTU (frag_newSwarm \<lparr>closeCalls = 0, closeResult = None\<rparr> 1024) ''peer'' + frag_Overhead \<le> 16)
   \<and> sint (noise_MTU (\<lambda>a. 16) \<lparr>ID = [1], Addr = ''peer''\<rparr>) = - 4
   \<and> \<not> (0 < sint (noise_MTU (\<lambda>a. 16) \<lparr>ID = [1], Addr = ''peer''\<rparr>))"
proof -
  have "sint (noise_MTU (\<lambda>a. 16) \<lparr>ID = [1], Addr = ''peer''\<rparr>) = - 4"
    by (simp add: noise_MTU_def noise_Overhead_def)
  then show ?thesis
    by (simp add: frag_MTU_def frag_newSwarm_def frag_Overhead_def MaxVarintLen32_def)
qed

theorem overlay_MTU_witness:
  "sint (noise_MTU (\<lambda>a. 1500) \<lparr>ID = [1], Addr = ''peer''\<rparr>) = 1480
   \<and> 0 < sint (noise_MTU (\<lambda>a. 1500) \<lparr>ID = [1], Addr = ''peer''\<rparr>)
   \<and> sint (noise_MTU (\<lambda>a. - (2 ^ 63)) \<lparr>ID = [1], Addr = ''peer''\<rparr>) = 2 ^ 63 - 20
   \<and> sint (dynmux_MTU 4 (\<lambda>a. 1500) ''peer'') = 1496
   \<and> 0 < sint (dynmux_MTU 4 (\<lambda>a. 1500) ''peer'')
   \<and> sint (dynmux_MTU 4 (\<lambda>a. - (2 ^ 63) + 3) ''peer'') = 2 ^ 63 - 1"
proof -
  have v: "sint (1500 :: go_int) = 1500" "sint (4 :: go_int) = 4"
    "sint (- (2 ^ 63) :: go_int) = - (2 ^ 63)" "sint (- (2 ^ 63) + 3 :: go_int) = - (2 ^ 63) + 3"
    by simp_all
  note a = overlay_MTU [of "\<lambda>a. 1500" "\<lparr>ID = [1], Addr = ''peer''\<rparr>" 4 "\<lambda>a. 1500" "''peer''"]
  note b = overlay_MTU [of "\<lambda>a. - (2 ^ 63)" "\<lparr>ID = [1], Addr = ''peer''\<rparr>" 4
      "\<lambda>a. - (2 ^ 63) + 3" "''peer''"]
  show ?thesis
    using a b by (simp add: v)
qed

section \<open>Kademlia cache: \<^verbatim>\<open>Closest\<close>\<close>

lemma Closest_loop_last:
  "b \<noteq> [] \<Longrightarrow> loopVar_e (Closest_loop key b st) = snd (last b)"
  by (induction b arbitrary: st) (auto simp add: Let_def split: prod.splits)

lemma Closest_loop_set_mono:
  "closestEntry_set st \<Longrightarrow> closestEntry_set (Closest_loop key b st)"
  by (induction b arbitrary: st) (auto simp add: Let_def split: prod.splits)

lemma Closest_loop_set:
  "b \<noteq> [] \<Longrightarrow> minDist st = None \<Longrightarrow> closestEntry_set (Closest_loop key b st)"
proof (cases b)
  case Nil
  assume "b \<noteq> []"
  with Nil show ?thesis by simp
next
  case (Cons p b')
  assume "minDist st = None"
  then show ?thesis
    unfolding Cons by (cases p) (simp add: Let_def Closest_loop_set_mono)
qed

text \<open>
  C5 fails on the code. The pointer \<^verbatim>\<open>Closest\<close> returns is the address of the loop
  variable, so what it refers to on return is the entry \<^verbatim>\<open>range\<close> visited last,
  whichever entry was nearest: for a non-empty bucket the result is the last entry
  in iteration order.
\<close>

theorem Closest_returns_last_visited:
  assumes "bucket kc key = Some b" and "b \<noteq> []"
  shows "Closest kc key = Some (snd (last b))"
  using assms by (simp add: Closest_def Let_def Closest_loop_last Closest_loop_set)

text \<open>
  With locus \<open>00\<close>, the bucket of key \<open>40\<close> holding the keys \<open>41\<close> and \<open>7f\<close>, visited in
  that order: the distance of \<open>41\<close> is \<open>01\<close>, that of \<open>7f\<close> is \<open>3f\<close>, and \<^verbatim>\<open>Closest\<close>
  returns the entry of \<open>7f\<close>.
\<close>

theorem Closest_not_nearest_witness:
  "Closest \<lparr>locus = [0], minPerBucket = 1, count = 2, max_c = 4,
            buckets = [[], [([0x41], \<lparr>Key = [0x41], Value = Some (1::nat)\<rparr>),
                            ([0x7f], \<lparr>Key = [0x7f], Value = Some 2\<rparr>)]]\<rparr> [0x40]
     = Some \<lparr>Key = [0x7f], Value = Some 2\<rparr>
   \<and> bytes_Compare (XORBytes [0] [0x41] [0x40]) (XORBytes [0] [0x7f] [0x40]) < 0"
proof -
  let ?kc = "\<lparr>locus = [0], minPerBucket = 1, count = 2, max_c = 4,
            buckets = [[], [([0x41], \<lparr>Key = [0x41], Value = Some (1::nat)\<rparr>),
                            ([0x7f], \<lparr>Key = [0x7f], Value = Some 2\<rparr>)]]\<rparr>"
  have b: "bucket ?kc [0x40] = Some [([0x41], \<lparr>Key = [0x41], Value = Some (1::nat)\<rparr>),
                            ([0x7f], \<lparr>Key = [0x7f], Value = Some 2\<rparr>)]"
    by code_simp
  show ?thesis
    using Closest_returns_last_visited [OF b] by simp
qed

section \<open>Kademlia cache: \<^verbatim>\<open>WouldPut\<close> against \<^verbatim>\<open>Put\<close>\<close>

text \<open>
  C6 fails on the code, in both directions. With \<open>max = 1\<close>, \<open>min_per_bucket = 0\<close> and
  the key \<open>40\<close> stored, \<^verbatim>\<open>WouldPut\<close> of key \<open>41\<close> is false, yet \<^verbatim>\<open>Put\<close> of it triggers an
  eviction that succeeds. With \<open>min_per_bucket = 5\<close> instead, \<^verbatim>\<open>WouldPut\<close> is true, yet
  \<^verbatim>\<open>Put\<close> leaves the count above \<open>max\<close> and evicts nothing.
\<close>

theorem WouldPut_disagrees_with_Put:
  "WouldPut \<lparr>locus = [0], minPerBucket = 0, count = 1, max_c = 1,
             buckets = [[], [([0x40], \<lparr>Key = [0x40], Value = Some (1::nat)\<rparr>)]]\<rparr> [0x41] = False
   \<and> Put 0 \<lparr>locus = [0], minPerBucket = 0, count = 1, max_c = 1,
             buckets = [[], [([0x40], \<lparr>Key = [0x40], Value = Some (1::nat)\<rparr>)]]\<rparr> [0x41] (Some 2)
       = Inr (Some \<lparr>Key = [0x40], Value = Some 1\<rparr>,
              \<lparr>locus = [0], minPerBucket = 0, count = 1, max_c = 1,
               buckets = [[], [([0x41], \<lparr>Key = [0x41], Value = Some 2\<rparr>)]]\<rparr>)
   \<and> WouldPut \<lparr>locus = [0], minPerBucket = 5, count = 1, max_c = 1,
             buckets = [[], [([0x40], \<lparr>Key = [0x40], Value = Some (1::nat)\<rparr>)]]\<rparr> [0x41] = True
   \<and> Put 0 \<lparr>locus = [0], minPerBucket = 5, count = 1, max_c = 1,
             buckets = [[], [([0x40], \<lparr>Key = [0x40], Value = Some (1::nat)\<rparr>)]]\<rparr> [0x41] (Some 2)
       = Inr (None,
              \<lparr>locus = [0], minPerBucket = 5, count = 2, max_c = 1,
               buckets = [[], [([0x40], \<lparr>Key = [0x40], Value = Some 1\<rparr>),
                               ([0x41], \<lparr>Key = [0x41], Value = Some 2\<rparr>)]]\<rparr>)"
  by code_simp

section \<open>Kademlia cache: count and capacity\<close>

lemma growBuckets_eq: "growBuckets bs lz = bs @ replicate (Suc lz - length bs) []"
proof (induction bs lz rule: growBuckets.induct)
  case (1 bs lz)
  show ?case
  proof (cases "length bs \<le> lz")
    case True
    have "Suc lz - length bs = Suc (lz - length bs)"
      using True by simp
    then show ?thesis
      using 1 True by (subst growBuckets.simps) (simp add: replicate_app_Cons_same)
  next
    case False
    then show ?thesis
      by (subst growBuckets.simps) simp
  qed
qed

lemma sum_list_map_update:
  fixes f :: "'a \<Rightarrow> int"
  shows "i < length xs \<Longrightarrow> sum_list (map f (xs[i := y])) = sum_list (map f xs) - f (xs ! i) + f y"
proof (induction xs arbitrary: i)
  case Nil
  then show ?case by simp
next
  case (Cons x xs)
  then show ?case by (cases i) auto
qed

lemma length_update:
  "length (AList.update k v al) = (if map_of al k = None then Suc (length al) else length al)"
  by (induction al) auto

lemma length_delete:
  "distinct (map fst al) \<Longrightarrow> k \<in> fst ` set al \<Longrightarrow> Suc (length (AList.delete k al)) = length al"
proof (induction al)
  case Nil
  then show ?case by simp
next
  case (Cons p al)
  show ?case
  proof (cases "fst p = k")
    case True
    then have "k \<notin> fst ` set al"
      using Cons.prems(1) by auto
    then show ?thesis
      using True by simp
  next
    case False
    then show ?thesis
      using Cons by auto
  qed
qed

lemma firstEvictable_None:
  "firstEvictable mpb bs i = None \<longleftrightarrow> (\<forall>b \<in> set bs. int (length b) \<le> mpb \<or> b = [])"
  by (induction bs arbitrary: i) auto

lemma firstEvictable_Some:
  "firstEvictable mpb bs i = Some n \<Longrightarrow>
     i \<le> n \<and> n - i < length bs \<and> int (length (bs ! (n - i))) > mpb \<and> bs ! (n - i) \<noteq> []
     \<and> (\<forall>j < n - i. int (length (bs ! j)) \<le> mpb \<or> bs ! j = [])"
proof (induction bs arbitrary: i)
  case Nil
  then show ?case by simp
next
  case (Cons b bs)
  show ?case
  proof (cases "int (length b) > mpb \<and> length b \<noteq> 0")
    case True
    then show ?thesis using Cons.prems by auto
  next
    case False
    then have f: "firstEvictable mpb bs (Suc i) = Some n"
      using Cons.prems by auto
    from Cons.IH [OF f] have ih: "Suc i \<le> n" "n - Suc i < length bs" "int (length (bs ! (n - Suc i))) > mpb"
      "bs ! (n - Suc i) \<noteq> []" "\<forall>j < n - Suc i. int (length (bs ! j)) \<le> mpb \<or> bs ! j = []"
      by auto
    have e: "n - i = Suc (n - Suc i)"
      using ih(1) by simp
    show ?thesis
      unfolding e using ih False by (auto simp add: less_Suc_eq_0_disj)
  qed
qed


lemma Put_unfold:
  "Put pick kc key v =
     (let lz = bucketIndex kc key;
          gb = growBuckets (buckets kc) lz;
          kc1 = kc\<lparr>count := (if map_of (gb ! lz) key = None then count kc + 1 else count kc),
                   buckets := gb[lz := AList.update key \<lparr>Key = key, Value = v\<rparr> (gb ! lz)]\<rparr>
      in if count kc1 > max_c kc then evict pick kc1 else Inr (None, kc1))"
  by (simp add: Put_def Let_def)

lemma grow_props:
  assumes "gb = growBuckets bs lz"
  shows "lz < length gb" and "length bs \<le> length gb"
    and "sum_list (map (\<lambda>b. int (length b)) gb) = sum_list (map (\<lambda>b. int (length b)) bs)"
    and "list_all P bs \<Longrightarrow> P [] \<Longrightarrow> list_all P gb"
    and "i < length bs \<Longrightarrow> gb ! i = bs ! i"
    and "length bs \<le> i \<Longrightarrow> i < length gb \<Longrightarrow> gb ! i = []"
  unfolding assms growBuckets_eq
  by (auto simp add: nth_append list_all_iff sum_list_replicate)

lemma evict_None:
  "firstEvictable (minPerBucket kc) (buckets kc) 0 = None \<Longrightarrow> evict pick kc = Inr (None, kc)"
  by (simp add: evict_def)

lemma evict_Some:
  assumes "firstEvictable (minPerBucket kc) (buckets kc) 0 = Some n"
  shows "\<exists>k ent. k \<in> fst ` set (buckets kc ! n) \<and>
           evict pick kc =
             Inr (Some ent, kc\<lparr>count := count kc - 1,
                                buckets := (buckets kc)[n := AList.delete k (buckets kc ! n)]\<rparr>)"
proof -
  from firstEvictable_Some [OF assms]
  have ne: "buckets kc ! n \<noteq> []"
    by auto
  define b where "b = buckets kc ! n"
  define k where "k = fst (b ! (pick mod length b))"
  have g: "getOne pick b = Inr k"
    using ne by (simp add: getOne_def b_def k_def)
  have kin: "k \<in> fst ` set b"
    using ne unfolding k_def b_def by (auto intro!: imageI nth_mem)
  have "evict pick kc = Inr (Some (case map_of b k of None \<Rightarrow> zeroEntry | Some e \<Rightarrow> e),
          kc\<lparr>count := count kc - 1, buckets := (buckets kc)[n := AList.delete k b]\<rparr>)"
    using assms g by (simp add: evict_def Let_def b_def [symmetric])
  then show ?thesis
    using kin unfolding b_def by blast
qed

lemma delete_inv:
  assumes "count kc = bucketTotal kc" and "distinctKeys kc"
    and "n < length (buckets kc)" and "k \<in> fst ` set (buckets kc ! n)"
  shows "count (kc\<lparr>count := count kc - 1, buckets := (buckets kc)[n := AList.delete k (buckets kc ! n)]\<rparr>)
         = bucketTotal (kc\<lparr>count := count kc - 1, buckets := (buckets kc)[n := AList.delete k (buckets kc ! n)]\<rparr>)"
    and "distinctKeys (kc\<lparr>count := count kc - 1, buckets := (buckets kc)[n := AList.delete k (buckets kc ! n)]\<rparr>)"
proof -
  have db: "distinct (map fst (buckets kc ! n))"
    using assms(2,3) unfolding distinctKeys_def by (simp add: list_all_length)
  have len: "int (length (AList.delete k (buckets kc ! n))) = int (length (buckets kc ! n)) - 1"
    using length_delete [OF db assms(4)] by simp
  show "count (kc\<lparr>count := count kc - 1, buckets := (buckets kc)[n := AList.delete k (buckets kc ! n)]\<rparr>)
         = bucketTotal (kc\<lparr>count := count kc - 1, buckets := (buckets kc)[n := AList.delete k (buckets kc ! n)]\<rparr>)"
    using assms(1,3) len by (simp add: bucketTotal_def sum_list_map_update)
  show "distinctKeys (kc\<lparr>count := count kc - 1, buckets := (buckets kc)[n := AList.delete k (buckets kc ! n)]\<rparr>)"
    using assms(2,3) db unfolding distinctKeys_def
    by (auto simp add: list_all_length nth_list_update AList.distinct_delete)
qed

lemma evict_inv:
  assumes "count kc = bucketTotal kc" and "distinctKeys kc"
  shows "\<exists>ev kc'. evict pick kc = Inr (ev, kc') \<and> count kc' = bucketTotal kc' \<and> distinctKeys kc'
           \<and> locus kc' = locus kc \<and> max_c kc' = max_c kc \<and> minPerBucket kc' = minPerBucket kc"
proof (cases "firstEvictable (minPerBucket kc) (buckets kc) 0")
  case None
  then show ?thesis
    using assms by (simp add: evict_None)
next
  case (Some n)
  from firstEvictable_Some [OF Some] have n: "n < length (buckets kc)"
    by auto
  from evict_Some [OF Some, of pick] obtain k ent where
    k: "k \<in> fst ` set (buckets kc ! n)" and
    ev: "evict pick kc = Inr (Some ent, kc\<lparr>count := count kc - 1,
                                buckets := (buckets kc)[n := AList.delete k (buckets kc ! n)]\<rparr>)"
    by blast
  show ?thesis
    using ev delete_inv [OF assms n k] by simp
qed

lemma insert_inv:
  assumes "count kc = bucketTotal kc" and "distinctKeys kc"
    and "gb = growBuckets (buckets kc) lz"
    and "kc1 = kc\<lparr>count := (if map_of (gb ! lz) key = None then count kc + 1 else count kc),
                   buckets := gb[lz := AList.update key e (gb ! lz)]\<rparr>"
  shows "count kc1 = bucketTotal kc1" and "distinctKeys kc1"
proof -
  note g = grow_props [OF assms(3)]
  have dg: "list_all (\<lambda>b. distinct (map fst b)) gb"
    using g(4) [of "\<lambda>b. distinct (map fst b)"] assms(2) by (simp add: distinctKeys_def)
  show "count kc1 = bucketTotal kc1"
    using assms(1) g(1,3)
    by (simp add: assms(4) bucketTotal_def sum_list_map_update length_update)
  show "distinctKeys kc1"
    using dg g(1) unfolding distinctKeys_def assms(4)
    by (auto simp add: list_all_length nth_list_update AList.distinct_update)
qed

lemma Put_inv:
  assumes "count kc = bucketTotal kc" and "distinctKeys kc"
  shows "\<exists>ev kc'. Put pick kc key v = Inr (ev, kc') \<and> count kc' = bucketTotal kc' \<and> distinctKeys kc'
           \<and> locus kc' = locus kc \<and> max_c kc' = max_c kc \<and> minPerBucket kc' = minPerBucket kc"
proof -
  define lz where "lz = bucketIndex kc key"
  define gb where "gb = growBuckets (buckets kc) lz"
  define kc1 where "kc1 = kc\<lparr>count := (if map_of (gb ! lz) key = None then count kc + 1 else count kc),
                   buckets := gb[lz := AList.update key \<lparr>Key = key, Value = v\<rparr> (gb ! lz)]\<rparr>"
  have P: "Put pick kc key v = (if count kc1 > max_c kc then evict pick kc1 else Inr (None, kc1))"
    by (simp add: Put_unfold Let_def lz_def gb_def kc1_def)
  note i = insert_inv [OF assms gb_def kc1_def]
  have par: "locus kc1 = locus kc" "max_c kc1 = max_c kc" "minPerBucket kc1 = minPerBucket kc"
    by (simp_all add: kc1_def)
  show ?thesis
  proof (cases "count kc1 > max_c kc")
    case True
    then show ?thesis
      using P evict_inv [OF i, of pick] par by auto
  next
    case False
    then show ?thesis
      using P i par by auto
  qed
qed

lemma Cache_upd_swap:
  "kc\<lparr>buckets := bs, count := c\<rparr> = kc\<lparr>count := c, buckets := bs\<rparr>"
  by simp

lemma Delete_inv:
  assumes "count kc = bucketTotal kc" and "distinctKeys kc"
  shows "count (snd (Delete kc key)) = bucketTotal (snd (Delete kc key))"
    and "distinctKeys (snd (Delete kc key))"
    and "locus (snd (Delete kc key)) = locus kc"
    and "max_c (snd (Delete kc key)) = max_c kc"
    and "minPerBucket (snd (Delete kc key)) = minPerBucket kc"
proof -
  have "count (snd (Delete kc key)) = bucketTotal (snd (Delete kc key))
        \<and> distinctKeys (snd (Delete kc key)) \<and> locus (snd (Delete kc key)) = locus kc
        \<and> max_c (snd (Delete kc key)) = max_c kc \<and> minPerBucket (snd (Delete kc key)) = minPerBucket kc"
  proof (cases "bucket kc key")
    case None
    then show ?thesis
      using assms by (simp add: Delete_def)
  next
    case (Some b)
    then have n: "bucketIndex kc key < length (buckets kc)" and b: "b = buckets kc ! bucketIndex kc key"
      by (auto simp add: bucket_def Let_def split: if_splits)
    show ?thesis
    proof (cases "map_of b key")
      case None
      then show ?thesis
        using Some assms by (simp add: Delete_def)
    next
      case (Some e)
      then have k: "key \<in> fst ` set (buckets kc ! bucketIndex kc key)"
        unfolding b by (metis domI dom_map_of_conv_image_fst)
      show ?thesis
        using \<open>bucket kc key = Some b\<close> Some delete_inv [OF assms n k]
        unfolding Delete_def b Cache_upd_swap by simp
    qed
  qed
  then show "count (snd (Delete kc key)) = bucketTotal (snd (Delete kc key))"
    and "distinctKeys (snd (Delete kc key))"
    and "locus (snd (Delete kc key)) = locus kc"
    and "max_c (snd (Delete kc key)) = max_c kc"
    and "minPerBucket (snd (Delete kc key)) = minPerBucket kc"
    by simp_all
qed

lemma runOps_inv:
  assumes "count kc = bucketTotal kc" and "distinctKeys kc"
  shows "\<exists>kc'. runOps kc ops = Inr kc' \<and> count kc' = bucketTotal kc' \<and> distinctKeys kc'
           \<and> locus kc' = locus kc \<and> max_c kc' = max_c kc \<and> minPerBucket kc' = minPerBucket kc"
  using assms
proof (induction ops arbitrary: kc)
  case Nil
  then show ?case by simp
next
  case (Cons op ops)
  show ?case
  proof (cases op)
    case (OpPut pick key v)
    from Put_inv [OF Cons.prems, of pick key v] obtain ev kc1 where
      p: "Put pick kc key v = Inr (ev, kc1)" and i: "count kc1 = bucketTotal kc1" "distinctKeys kc1"
      and par: "locus kc1 = locus kc" "max_c kc1 = max_c kc" "minPerBucket kc1 = minPerBucket kc"
      by blast
    from Cons.IH [OF i] show ?thesis
      using p par by (auto simp add: OpPut)
  next
    case (OpDelete key)
    note d = Delete_inv [OF Cons.prems, of key]
    from Cons.IH [OF d(1,2)] show ?thesis
      using d(3-5) by (auto simp add: OpDelete)
  qed
qed


lemma Put_floor:
  assumes inv: "count kc = bucketTotal kc" "distinctKeys kc"
    and J: "count kc \<le> max_c kc \<or> atFloor kc"
    and P: "Put pick kc key v = Inr (ev, kc')"
  shows "count kc' \<le> max_c kc' \<or> atFloor kc'"
proof -
  define lz where "lz = bucketIndex kc key"
  define gb where "gb = growBuckets (buckets kc) lz"
  define b1 where "b1 = AList.update key \<lparr>Key = key, Value = v\<rparr> (gb ! lz)"
  define kc1 where "kc1 = kc\<lparr>count := (if map_of (gb ! lz) key = None then count kc + 1 else count kc),
                   buckets := gb[lz := b1]\<rparr>"
  have P': "Put pick kc key v = (if count kc1 > max_c kc then evict pick kc1 else Inr (None, kc1))"
    by (simp add: Put_unfold Let_def lz_def gb_def kc1_def b1_def)
  note g = grow_props [OF gb_def]
  note i = insert_inv [OF inv gb_def kc1_def [unfolded b1_def]]
  have c1: "count kc1 \<le> count kc + 1"
    by (simp add: kc1_def)
  show ?thesis
  proof (cases "count kc1 > max_c kc")
    case False
    then show ?thesis
      using P P' by (auto simp add: kc1_def)
  next
    case True
    then have E: "evict pick kc1 = Inr (ev, kc')"
      using P P' by simp
    show ?thesis
    proof (cases "firstEvictable (minPerBucket kc1) (buckets kc1) 0")
      case None
      then have "kc' = kc1"
        using E by (simp add: evict_None)
      moreover have "atFloor kc1"
        using None by (simp add: firstEvictable_None atFloor_def list_all_iff)
      ultimately show ?thesis
        by simp
    next
      case (Some n)
      from firstEvictable_Some [OF Some]
      have n: "n < length (buckets kc1)" and big: "int (length (buckets kc1 ! n)) > minPerBucket kc1"
        and ne: "buckets kc1 ! n \<noteq> []"
        by auto
      from evict_Some [OF Some, of pick] E obtain k where
        k: "k \<in> fst ` set (buckets kc1 ! n)" and
        kc': "kc' = kc1\<lparr>count := count kc1 - 1,
                         buckets := (buckets kc1)[n := AList.delete k (buckets kc1 ! n)]\<rparr>"
        by auto
      from J show ?thesis
      proof
        assume "count kc \<le> max_c kc"
        then show ?thesis
          using c1 by (simp add: kc' kc1_def)
      next
        assume fl: "atFloor kc"
        have gfl: "list_all (\<lambda>b. int (length b) \<le> minPerBucket kc \<or> b = []) gb"
          using g(4) [of "\<lambda>b. int (length b) \<le> minPerBucket kc \<or> b = []"] fl
          by (simp add: atFloor_def)
        have ngb: "n < length gb"
          using n by (simp add: kc1_def)
        have nlz: "n = lz"
        proof (rule ccontr)
          assume "n \<noteq> lz"
          then have "buckets kc1 ! n = gb ! n"
            by (simp add: kc1_def)
          then show False
            using gfl ngb big ne by (auto simp add: list_all_length kc1_def)
        qed
        have b1n: "buckets kc1 ! n = b1"
          using g(1) by (simp add: nlz kc1_def)
        have db1: "distinct (map fst b1)"
          using i(2) n b1n unfolding distinctKeys_def by (auto simp add: list_all_length)
        have len: "Suc (length (AList.delete k b1)) = length b1"
          using length_delete [OF db1] k b1n by simp
        have lb1: "length b1 \<le> Suc (length (gb ! lz))"
          by (simp add: b1_def length_update)
        have old: "int (length (gb ! lz)) \<le> minPerBucket kc \<or> gb ! lz = []"
          using gfl g(1) by (simp add: list_all_length)
        have new: "int (length (AList.delete k b1)) \<le> minPerBucket kc \<or> AList.delete k b1 = []"
        proof (cases "gb ! lz = []")
          case True
          then have "length (gb ! lz) = 0"
            by simp
          then have "length (AList.delete k b1) = 0"
            using len lb1 by linarith
          then show ?thesis
            by simp
        next
          case False
          then show ?thesis
            using old len lb1 by simp
        qed
        have "atFloor kc'"
          unfolding atFloor_def kc' b1n
          using gfl new g(1) by (auto simp add: kc1_def nlz list_all_length nth_list_update)
        then show ?thesis
          by simp
      qed
    qed
  qed
qed

lemma runOps_floor:
  assumes "count kc = bucketTotal kc" and "distinctKeys kc"
    and "count kc \<le> max_c kc \<or> atFloor kc"
    and "list_all isPut ops" and "runOps kc ops = Inr kc'"
  shows "count kc' \<le> max_c kc' \<or> atFloor kc'"
  using assms
proof (induction ops arbitrary: kc)
  case Nil
  then show ?case by simp
next
  case (Cons op ops)
  from Cons.prems(4) obtain pick key v where op: "op = OpPut pick key v"
    by (cases op) auto
  from Put_inv [OF Cons.prems(1,2), of pick key v] obtain ev kc1 where
    p: "Put pick kc key v = Inr (ev, kc1)" and i: "count kc1 = bucketTotal kc1" "distinctKeys kc1"
    by blast
  have j: "count kc1 \<le> max_c kc1 \<or> atFloor kc1"
    by (rule Put_floor [OF Cons.prems(1,2,3) p])
  have r: "runOps kc1 ops = Inr kc'"
    using Cons.prems(5) p by (simp add: op)
  show ?case
    using Cons.IH [OF i j _ r] Cons.prems(4) by simp
qed

lemma sum_lengths_empty:
  "\<forall>b \<in> set bs. b = [] \<Longrightarrow> sum_list (map (\<lambda>b. int (length b)) bs) = 0"
  by (induction bs) auto

lemma atFloor_nonpos:
  assumes "atFloor kc" and "minPerBucket kc \<le> 0"
  shows "bucketTotal kc = 0"
proof -
  have "b = []" if "b \<in> set (buckets kc)" for b
  proof -
    have "int (length b) \<le> minPerBucket kc \<or> b = []"
      using assms(1) that by (simp add: atFloor_def list_all_iff)
    then have "int (length b) \<le> 0 \<or> b = []"
      using assms(2) by linarith
    then show ?thesis
      by auto
  qed
  then show ?thesis
    unfolding bucketTotal_def by (simp add: sum_lengths_empty)
qed

text \<open>
  C3, as the code has it. From a fresh cache with \<open>max \<ge> 1\<close>, every sequence of
  \<^verbatim>\<open>Put\<close> and \<^verbatim>\<open>Delete\<close> runs without a panic and leaves \<^verbatim>\<open>Count()\<close> equal to the
  sum of the sizes of the buckets (each bucket keeping its keys distinct). After a
  sequence of \<^verbatim>\<open>Put\<close>s the count is at most \<open>max\<close>, or else no bucket is above the
  floor \<open>min_per_bucket\<close>, so that eviction had nothing to take; when
  \<open>min_per_bucket \<le> 0\<close> the count is at most \<open>max\<close>.
\<close>

theorem cache_count_invariant:
  assumes "1 \<le> mx"
  shows "\<exists>kc0 kc. NewCache loc mx mpb = Inr kc0 \<and> runOps kc0 ops = Inr kc
           \<and> distinctKeys kc \<and> Count kc = bucketTotal kc
           \<and> (list_all isPut ops \<longrightarrow> Count kc \<le> mx \<or> atFloor kc)
           \<and> (list_all isPut ops \<and> mpb \<le> 0 \<longrightarrow> Count kc \<le> mx)"
proof -
  define kc0 :: "'a Cache" where
    "kc0 = \<lparr>locus = loc, minPerBucket = mpb, count = 0, max_c = mx, buckets = []\<rparr>"
  have n: "NewCache loc mx mpb = Inr kc0"
    using assms by (simp add: NewCache_def kc0_def)
  have i0: "count kc0 = bucketTotal kc0" "distinctKeys kc0"
    by (simp_all add: kc0_def bucketTotal_def distinctKeys_def)
  have j0: "count kc0 \<le> max_c kc0 \<or> atFloor kc0"
    using assms by (simp add: kc0_def)
  from runOps_inv [OF i0, of ops] obtain kc where
    r: "runOps kc0 ops = Inr kc" and i: "count kc = bucketTotal kc" "distinctKeys kc"
    and par: "max_c kc = mx" "minPerBucket kc = mpb"
    by (auto simp add: kc0_def)
  have fl: "Count kc \<le> mx \<or> atFloor kc" if "list_all isPut ops"
    using runOps_floor [OF i0 j0 that r] par by (simp add: Count_def)
  have np: "Count kc \<le> mx" if "list_all isPut ops" "mpb \<le> 0"
    using fl [OF that(1)] atFloor_nonpos [of kc] i(1) par that(2) assms by (auto simp add: Count_def)
  show ?thesis
    using n r i fl np by (auto simp add: Count_def)
qed

text \<open>
  C3 as stated fails: with \<open>max = 1\<close> and \<open>min_per_bucket = 1\<close> three keys that fall
  into three different buckets are all kept, and the count is \<open>3 > max + 1\<close>.
\<close>

theorem cache_count_exceeds_max_plus_one:
  "NewCache [0] 1 1 = Inr (\<lparr>locus = [0], minPerBucket = 1, count = 0, max_c = 1, buckets = []\<rparr> :: nat Cache)
   \<and> runOps \<lparr>locus = [0], minPerBucket = 1, count = 0, max_c = 1, buckets = []\<rparr>
        [OpPut 0 [0x80] (Some (1::nat)), OpPut 0 [0x40] (Some 2), OpPut 0 [0x20] (Some 3)]
     = Inr \<lparr>locus = [0], minPerBucket = 1, count = 3, max_c = 1,
            buckets = [[([0x80], \<lparr>Key = [0x80], Value = Some 1\<rparr>)],
                       [([0x40], \<lparr>Key = [0x40], Value = Some 2\<rparr>)],
                       [([0x20], \<lparr>Key = [0x20], Value = Some 3\<rparr>)]]\<rparr>
   \<and> \<not> (3 \<le> (1::int) + 1)"
  by code_simp

theorem cache_count_invariant_witness:
  "\<exists>kc0 kc. NewCache [0] 2 0 = Inr kc0
     \<and> runOps kc0 [OpPut 0 [0x80] (Some (1::nat)), OpPut 0 [0x40] (Some 2), OpPut 0 [0x20] (Some 3)] = Inr kc
     \<and> distinctKeys kc \<and> Count kc = bucketTotal kc \<and> Count kc \<le> 2"
  using cache_count_invariant [of 2 "[0]" 0
      "[OpPut 0 [0x80] (Some (1::nat)), OpPut 0 [0x40] (Some 2), OpPut 0 [0x20] (Some 3)]"]
  by auto

section \<open>Kademlia cache: an entry whose value is \<^verbatim>\<open>nil\<close>\<close>

lemma Get_stored: "Get kc key = (case stored kc key of None \<Rightarrow> None | Some e \<Rightarrow> Value e)"
  by (simp add: Get_def stored_def split: option.splits)

lemma bucketIndex_upd:
  "bucketIndex (kc\<lparr>count := c, buckets := bs\<rparr>) key = bucketIndex kc key"
  by (simp add: bucketIndex_def)

lemma stored_insert:
  assumes "gb = growBuckets (buckets kc) (bucketIndex kc key)"
  shows "stored (kc\<lparr>count := c, buckets := gb[bucketIndex kc key := AList.update key e (gb ! bucketIndex kc key)]\<rparr>) key
         = Some e"
  using grow_props(1) [OF assms]
  by (simp add: stored_def bucket_def bucketIndex_upd Let_def AList.update_conv')

lemma stored_evicted:
  "stored (kc\<lparr>count := c, buckets := (buckets kc)[n := AList.delete k (buckets kc ! n)]\<rparr>) key = None
   \<or> stored (kc\<lparr>count := c, buckets := (buckets kc)[n := AList.delete k (buckets kc ! n)]\<rparr>) key
      = stored kc key"
proof (cases "n < length (buckets kc) \<and> n = bucketIndex kc key")
  case True
  then show ?thesis
    by (cases "k = key") (simp_all add: stored_def bucket_def bucketIndex_upd Let_def AList.delete_conv')
next
  case False
  then have "(buckets kc)[n := AList.delete k (buckets kc ! n)] ! bucketIndex kc key
             = buckets kc ! bucketIndex kc key"
    by (cases "n < length (buckets kc)") (auto simp add: nth_list_update list_update_beyond)
  then show ?thesis
    by (simp add: stored_def bucket_def bucketIndex_upd Let_def)
qed

lemma stored_grown_absent:
  assumes "gb = growBuckets (buckets kc) (bucketIndex kc key)" and "stored kc key = None"
  shows "map_of (gb ! bucketIndex kc key) key = None"
proof (cases "bucketIndex kc key < length (buckets kc)")
  case True
  then show ?thesis
    using assms(2) grow_props(5) [OF assms(1) True] by (simp add: stored_def bucket_def Let_def)
next
  case False
  then show ?thesis
    using grow_props(6) [OF assms(1), of "bucketIndex kc key"] grow_props(1) [OF assms(1)] by simp
qed

text \<open>
  C10, as the code has it. After \<^verbatim>\<open>Put(k, nil)\<close>, \<^verbatim>\<open>Get(k)\<close> returns \<^verbatim>\<open>nil\<close> and
  \<^verbatim>\<open>Contains(k)\<close> is false, so \<^verbatim>\<open>WouldAdd(k)\<close> is whatever \<^verbatim>\<open>WouldPut(k)\<close> is. If the
  key was absent and the cache had room, the put evicts nothing, raises the count by
  one and leaves the entry stored; \<^verbatim>\<open>WouldAdd(k)\<close> is then true as long as there is
  still room for one more entry.
\<close>

theorem Put_nil_value:
  "\<exists>ev kc'. Put pick kc key None = Inr (ev, kc')
     \<and> Get kc' key = None \<and> \<not> Contains kc' key \<and> WouldAdd kc' key = WouldPut kc' key
     \<and> (stored kc key = None \<and> count kc + 1 \<le> max_c kc \<longrightarrow>
          ev = None \<and> Count kc' = Count kc + 1
          \<and> stored kc' key = Some \<lparr>Key = key, Value = None\<rparr>
          \<and> (count kc' + 1 \<le> max_c kc' \<longrightarrow> WouldAdd kc' key))"
proof -
  define lz where "lz = bucketIndex kc key"
  define gb where "gb = growBuckets (buckets kc) lz"
  define e :: "'a Entry" where "e = \<lparr>Key = key, Value = None\<rparr>"
  define kc1 where "kc1 = kc\<lparr>count := (if map_of (gb ! lz) key = None then count kc + 1 else count kc),
                   buckets := gb[lz := AList.update key e (gb ! lz)]\<rparr>"
  have P: "Put pick kc key None = (if count kc1 > max_c kc then evict pick kc1 else Inr (None, kc1))"
    by (simp add: Put_unfold Let_def lz_def gb_def kc1_def e_def)
  have s1: "stored kc1 key = Some e"
    unfolding kc1_def lz_def by (rule stored_insert) (simp add: gb_def lz_def)
  have fin: "Get kc' key = None \<and> \<not> Contains kc' key \<and> WouldAdd kc' key = WouldPut kc' key"
    if "stored kc' key = None \<or> stored kc' key = Some e" for kc' :: "'a Cache"
    using that by (auto simp add: Get_stored Contains_def WouldAdd_def e_def)
  show ?thesis
  proof (cases "count kc1 > max_c kc")
    case False
    have "Put pick kc key None = Inr (None, kc1)"
      using P False by simp
    moreover have "Count kc1 = Count kc + 1" if "stored kc key = None"
      using stored_grown_absent [OF _ that, of gb] by (simp add: kc1_def Count_def gb_def lz_def)
    moreover have "WouldAdd kc1 key" if "count kc1 + 1 \<le> max_c kc1"
      using fin [of kc1] s1 that by (simp add: WouldPut_def Let_def)
    ultimately show ?thesis
      using fin [of kc1] s1 by (auto simp add: e_def)
  next
    case True
    have big: "\<not> (stored kc key = None \<and> count kc + 1 \<le> max_c kc)"
      using True by (auto simp add: kc1_def split: if_splits)
    show ?thesis
    proof (cases "firstEvictable (minPerBucket kc1) (buckets kc1) 0")
      case None
      then have "Put pick kc key None = Inr (None, kc1)"
        using P True by (simp add: evict_None)
      then show ?thesis
        using fin [of kc1] s1 big by auto
    next
      case (Some n)
      from evict_Some [OF Some, of pick] obtain k ent where
        ev: "evict pick kc1 = Inr (Some ent, kc1\<lparr>count := count kc1 - 1,
                                buckets := (buckets kc1)[n := AList.delete k (buckets kc1 ! n)]\<rparr>)"
        by blast
      have "Put pick kc key None = Inr (Some ent, kc1\<lparr>count := count kc1 - 1,
                                buckets := (buckets kc1)[n := AList.delete k (buckets kc1 ! n)]\<rparr>)"
        using P True ev by simp
      then show ?thesis
        using fin [of "kc1\<lparr>count := count kc1 - 1,
                                buckets := (buckets kc1)[n := AList.delete k (buckets kc1 ! n)]\<rparr>"]
          stored_evicted [where kc = kc1 and c = "count kc1 - 1" and n = n and k = k and key = key]
          s1 big by auto
    qed
  qed
qed

text \<open>
  C10 as stated fails where the put fills the cache: with \<open>max = 1\<close> the entry is
  stored, yet \<^verbatim>\<open>WouldAdd\<close> of its key is false.
\<close>

theorem Put_nil_then_WouldAdd_false:
  "Put 0 (\<lparr>locus = [0], minPerBucket = 0, count = 0, max_c = 1, buckets = []\<rparr> :: nat Cache) [0x40] None
     = Inr (None, \<lparr>locus = [0], minPerBucket = 0, count = 1, max_c = 1,
                   buckets = [[], [([0x40], \<lparr>Key = [0x40], Value = None\<rparr>)]]\<rparr>)
   \<and> stored (\<lparr>locus = [0], minPerBucket = 0, count = 1, max_c = 1,
                   buckets = [[], [([0x40], \<lparr>Key = [0x40], Value = None\<rparr>)]]\<rparr> :: nat Cache) [0x40]
       = Some \<lparr>Key = [0x40], Value = None\<rparr>
   \<and> WouldAdd (\<lparr>locus = [0], minPerBucket = 0, count = 1, max_c = 1,
                   buckets = [[], [([0x40], \<lparr>Key = [0x40], Value = None\<rparr>)]]\<rparr> :: nat Cache) [0x40] = False"
  by code_simp

theorem Put_nil_value_witness:
  "\<exists>kc'. Put 0 (\<lparr>locus = [0], minPerBucket = 0, count = 0, max_c = 2, buckets = []\<rparr> :: nat Cache)
            [0x40] None = Inr (None, kc')
     \<and> Count kc' = 1 \<and> stored kc' [0x40] = Some \<lparr>Key = [0x40], Value = None\<rparr>
     \<and> Get kc' [0x40] = None \<and> \<not> Contains kc' [0x40] \<and> WouldAdd kc' [0x40]"
proof -
  let ?kc = "\<lparr>locus = [0], minPerBucket = 0, count = 0, max_c = 2, buckets = []\<rparr> :: nat Cache"
  let ?kc' = "\<lparr>locus = [0], minPerBucket = 0, count = 1, max_c = 2,
              buckets = [[], [([0x40], \<lparr>Key = [0x40], Value = None\<rparr>)]]\<rparr> :: nat Cache"
  have p: "Put 0 ?kc [0x40] None = Inr (None, ?kc')"
    by code_simp
  have a: "stored ?kc [0x40] = None"
    by code_simp
  from Put_nil_value [of 0 ?kc "[0x40]"] p a
  have "Get ?kc' [0x40] = None \<and> \<not> Contains ?kc' [0x40] \<and> Count ?kc' = Count ?kc + 1
        \<and> stored ?kc' [0x40] = Some \<lparr>Key = [0x40], Value = None\<rparr> \<and> WouldAdd ?kc' [0x40]"
    by auto
  then show ?thesis
    using p by (auto simp add: Count_def)
qed

end
